theory Spec2Isabelle
  imports Main "HOL-Library.AList" "HOL-Library.Sublist"
begin

section \<open>JavaScript values\<close>

text \<open>
  The store of \<^verbatim>\<open>src/lib/store/store.js\<close> is one nested JavaScript object: directories,
  the per-directory \<^verbatim>\<open>_json\<close> index, parsed documents and raw file bodies all live in
  the same value universe and are told apart only by what a property read returns. The
  model therefore keeps one datatype of values. An object is an association list of its
  own properties in insertion order; an array carries its elements and, beside them, its
  named own properties. A hole of an array reads as \<^verbatim>\<open>undefined\<close> and is kept as such.

  Two kinds of value are not held by value.
  \<^item> \<open>Ref a\<close> is the object at address \<open>a\<close> of the heap of the store. The objects and
    arrays that come out of a file (its parsed contents above all) are heap objects: the
    source shares one such object between the leaf of the tree, the index sequences of
    every ancestor and the file cache, in the live tree and in the staging tree alike,
    and it writes \<^verbatim>\<open>__FILENAME__\<close> onto it in place. The directories and the indexes
    are made by the store itself, each is reachable from its parent only, and they are
    held by value.
  \<^item> \<open>Native k\<close> is the member \<open>k\<close> of \<^verbatim>\<open>Object.prototype\<close>. Every object that the store or
    \<^verbatim>\<open>JSON.parse\<close> makes inherits from \<^verbatim>\<open>Object.prototype\<close>, so a read of a name that is
    not an own property finds the member of that name, if there is one: a function, or
    for \<^verbatim>\<open>__proto__\<close> the prototype itself.

  Scope of the value model:
  \<^item> the members of the prototypes of arrays, strings, numbers, booleans and functions
    depend on the engine: a read, on such a value, of a name that is not an own property
    and that could name a built-in member has the outcome \<open>Unmodelled\<close>, and so has every
    operation whose effect would reach a built-in object or the prototype of an object;
  \<^item> a step of \<^verbatim>\<open>add\<close> or \<^verbatim>\<open>remove\<close> into a heap object (a path that runs through a
    document) has the outcome \<open>Unmodelled\<close>; \<^verbatim>\<open>get\<close> reads through heap objects;
  \<^item> numbers are integers (only the test against zero matters here) and strings are
    lists of 8-bit characters;
  \<^item> the order of the properties of an object is the order of their first write; no
    operation modelled here enumerates properties, so the order is never observed;
  \<^item> the file has no \<^verbatim>\<open>'use strict'\<close> directive: a property write on a primitive is
    ignored silently.
\<close>

datatype jsval =
    Undefined
  | Null
  | Bool bool
  | Num int
  | Str string
  | Arr "jsval list" "(string \<times> jsval) list"
  | Obj "(string \<times> jsval) list"
  | Ref nat
  | Native string

datatype error = TypeError | HookError | Unmodelled

fun truthy :: "jsval \<Rightarrow> bool" where
  "truthy Undefined = False"
| "truthy Null = False"
| "truthy (Bool b) = b"
| "truthy (Num n) = (n \<noteq> 0)"
| "truthy (Str s) = (s \<noteq> [])"
| "truthy (Arr xs ps) = True"
| "truthy (Obj ps) = True"
| "truthy (Ref a) = True"
| "truthy (Native k) = True"

fun nullish :: "jsval \<Rightarrow> bool" where
  "nullish Undefined = True"
| "nullish Null = True"
| "nullish v = False"

definition bindE :: "error + 'a \<Rightarrow> ('a \<Rightarrow> error + 'b) \<Rightarrow> error + 'b" where
  "bindE m f = (case m of Inl e \<Rightarrow> Inl e | Inr x \<Rightarrow> f x)"

definition isDigit :: "char \<Rightarrow> bool" where
  "isDigit c = (48 \<le> (of_char c :: nat) \<and> (of_char c :: nat) \<le> 57)"

definition digitsValue :: "string \<Rightarrow> nat" where
  "digitsValue k = foldl (\<lambda>a c. 10 * a + ((of_char c :: nat) - 48)) 0 k"

text \<open>A property key is an array index when it is the canonical decimal form of an
  integer below \<open>2^32 - 1\<close>.\<close>

definition arrayIndex :: "string \<Rightarrow> nat option" where
  "arrayIndex k =
     (if k = [] \<or> \<not> list_all isDigit k \<or> (hd k = CHR ''0'' \<and> length k > 1) then None
      else if digitsValue k < 4294967295 then Some (digitsValue k) else None)"

text \<open>The names of the members of \<^verbatim>\<open>Object.prototype\<close> (ECMAScript, with its annex B). A
  name is plain when it is none of them. A name that could be that of a member of some
  other built-in object is one of these or is made of letters only: every member of the
  prototypes of arrays, strings, numbers, booleans and functions, and of a built-in
  function itself, has such a name.\<close>

definition objectPrototypeNames :: "string list" where
  "objectPrototypeNames =
     [''constructor'', ''__defineGetter__'', ''__defineSetter__'', ''hasOwnProperty'',
      ''__lookupGetter__'', ''__lookupSetter__'', ''isPrototypeOf'', ''propertyIsEnumerable'',
      ''toString'', ''valueOf'', ''__proto__'', ''toLocaleString'']"

definition plainName :: "string \<Rightarrow> bool" where
  "plainName k = (k \<notin> set objectPrototypeNames)"

definition isLetter :: "char \<Rightarrow> bool" where
  "isLetter c =
     ((65 \<le> (of_char c :: nat) \<and> (of_char c :: nat) \<le> 90)
      \<or> (97 \<le> (of_char c :: nat) \<and> (of_char c :: nat) \<le> 122))"

definition mayBeBuiltin :: "string \<Rightarrow> bool" where
  "mayBeBuiltin k = (\<not> plainName k \<or> (k \<noteq> [] \<and> list_all isLetter k))"

text \<open>The own property \<open>k\<close> of a value that is held by value, \<^verbatim>\<open>undefined\<close> when it has
  none of that name; and whether it has one.\<close>

fun propOf :: "jsval \<Rightarrow> string \<Rightarrow> jsval" where
  "propOf (Obj ps) k = (case map_of ps k of Some v \<Rightarrow> v | None \<Rightarrow> Undefined)"
| "propOf (Arr xs ps) k =
     (case arrayIndex k of
        Some i \<Rightarrow> (if i < length xs then xs ! i else Undefined)
      | None \<Rightarrow> (if k = ''length'' then Num (int (length xs))
                 else (case map_of ps k of Some v \<Rightarrow> v | None \<Rightarrow> Undefined)))"
| "propOf (Str s) k =
     (case arrayIndex k of
        Some i \<Rightarrow> (if i < length s then Str [s ! i] else Undefined)
      | None \<Rightarrow> (if k = ''length'' then Num (int (length s)) else Undefined))"
| "propOf v k = Undefined"

fun hasOwn :: "jsval \<Rightarrow> string \<Rightarrow> bool" where
  "hasOwn (Obj ps) k = (map_of ps k \<noteq> None)"
| "hasOwn (Arr xs ps) k =
     (case arrayIndex k of
        Some i \<Rightarrow> i < length xs
      | None \<Rightarrow> k = ''length'' \<or> map_of ps k \<noteq> None)"
| "hasOwn (Str s) k =
     (case arrayIndex k of
        Some i \<Rightarrow> i < length s
      | None \<Rightarrow> k = ''length'')"
| "hasOwn v k = False"

text \<open>What a read finds when the value has no own property of the name: on an object,
  the member of \<^verbatim>\<open>Object.prototype\<close> of that name or \<^verbatim>\<open>undefined\<close>; on a heap object nothing
  can be said without the heap; on any other value \<^verbatim>\<open>undefined\<close>, unless the name could be
  that of a built-in member.\<close>

fun inherited :: "jsval \<Rightarrow> string \<Rightarrow> error + jsval" where
  "inherited (Obj ps) k = Inr (if plainName k then Undefined else Native k)"
| "inherited (Ref a) k = Inl Unmodelled"
| "inherited v k = (if mayBeBuiltin k then Inl Unmodelled else Inr Undefined)"

text \<open>\<^verbatim>\<open>v[k]\<close>: a read on \<^verbatim>\<open>null\<close> or \<^verbatim>\<open>undefined\<close> throws.\<close>

definition getProp :: "jsval \<Rightarrow> string \<Rightarrow> error + jsval" where
  "getProp v k =
     (if nullish v then Inl TypeError
      else if hasOwn v k then Inr (propOf v k)
      else inherited v k)"

text \<open>\<^verbatim>\<open>v?.[k]\<close>: optional chaining.\<close>

definition optProp :: "jsval \<Rightarrow> string \<Rightarrow> error + jsval" where
  "optProp v k = (if nullish v then Inr Undefined else getProp v k)"

text \<open>\<^verbatim>\<open>v[k] = x\<close>. The name \<^verbatim>\<open>__proto__\<close>, where it is no own property, is the accessor of
  \<^verbatim>\<open>Object.prototype\<close>: its setter ignores a value that is neither an object nor \<^verbatim>\<open>null\<close>,
  and otherwise replaces the prototype. Every other member of \<^verbatim>\<open>Object.prototype\<close> is a
  writable data property, so the write makes an own property. A write of an index
  beyond the end of an array pads with holes; a write of an array's \<^verbatim>\<open>length\<close> depends on
  number conversion.\<close>

fun protoIgnores :: "jsval \<Rightarrow> bool" where
  "protoIgnores Undefined = True"
| "protoIgnores (Bool b) = True"
| "protoIgnores (Num n) = True"
| "protoIgnores (Str s) = True"
| "protoIgnores v = False"

definition setNamed :: "(string \<times> jsval) list \<Rightarrow> string \<Rightarrow> jsval \<Rightarrow> error + (string \<times> jsval) list" where
  "setNamed ps k x =
     (if k = ''__proto__'' \<and> map_of ps k = None
      then (if protoIgnores x then Inr ps else Inl Unmodelled)
      else Inr (AList.update k x ps))"

fun setProp :: "jsval \<Rightarrow> string \<Rightarrow> jsval \<Rightarrow> error + jsval" where
  "setProp Undefined k x = Inl TypeError"
| "setProp Null k x = Inl TypeError"
| "setProp (Obj ps) k x = bindE (setNamed ps k x) (\<lambda>ps'. Inr (Obj ps'))"
| "setProp (Arr xs ps) k x =
     (case arrayIndex k of
        Some i \<Rightarrow> (if i < length xs then Inr (Arr (xs[i := x]) ps)
                   else Inr (Arr (xs @ replicate (i - length xs) Undefined @ [x]) ps))
      | None \<Rightarrow> (if k = ''length'' then Inl Unmodelled
                 else bindE (setNamed ps k x) (\<lambda>ps'. Inr (Arr xs ps'))))"
| "setProp (Ref a) k x = Inl Unmodelled"
| "setProp (Native n) k x = Inl Unmodelled"
| "setProp v k x = Inr v"

text \<open>\<^verbatim>\<open>delete v[k]\<close>: only an own property is deleted.\<close>

fun deleteProp :: "jsval \<Rightarrow> string \<Rightarrow> error + jsval" where
  "deleteProp Undefined k = Inl TypeError"
| "deleteProp Null k = Inl TypeError"
| "deleteProp (Obj ps) k = Inr (Obj (AList.delete k ps))"
| "deleteProp (Arr xs ps) k =
     (case arrayIndex k of
        Some i \<Rightarrow> (if i < length xs then Inr (Arr (xs[i := Undefined]) ps) else Inr (Arr xs ps))
      | None \<Rightarrow> (if k = ''length'' then Inr (Arr xs ps)
                 else Inr (Arr xs (AList.delete k ps))))"
| "deleteProp (Ref a) k = Inl Unmodelled"
| "deleteProp (Native n) k = (if mayBeBuiltin k then Inl Unmodelled else Inr (Native n))"
| "deleteProp v k = Inr v"

text \<open>The effect, seen from the holder \<open>v\<close>, of an in-place mutation of the object that
  was read from \<open>v[k]\<close>: the own property \<open>k\<close> now shows the mutated value \<open>x\<close>. A value
  that was found beyond the own properties is not held by \<open>v\<close>; a primitive has no
  mutable parts, and neither has the \<^verbatim>\<open>length\<close> of an array.\<close>

fun writeBack :: "jsval \<Rightarrow> string \<Rightarrow> jsval \<Rightarrow> jsval" where
  "writeBack (Obj ps) k x = (if map_of ps k = None then Obj ps else Obj (AList.update k x ps))"
| "writeBack (Arr xs ps) k x =
     (case arrayIndex k of
        Some i \<Rightarrow> (if i < length xs then Arr (xs[i := x]) ps else Arr xs ps)
      | None \<Rightarrow> (if k = ''length'' \<or> map_of ps k = None then Arr xs ps
                 else Arr xs (AList.update k x ps)))"
| "writeBack v k x = v"

text \<open>A method call \<^verbatim>\<open>v.m(...)\<close> of an array method: an array has the method unless an
  own property of that name hides it; a call on a heap object needs the heap; any other
  value has no such method, and the call throws.\<close>

fun methodOf :: "jsval \<Rightarrow> string \<Rightarrow> error + unit" where
  "methodOf (Arr xs ps) m = (if map_of ps m = None then Inr () else Inl Unmodelled)"
| "methodOf (Obj ps) m = (if map_of ps m = None then Inl TypeError else Inl Unmodelled)"
| "methodOf (Ref a) m = Inl Unmodelled"
| "methodOf v m = Inl TypeError"

text \<open>\<^verbatim>\<open>a.push(x)\<close>.\<close>

definition push :: "jsval \<Rightarrow> jsval \<Rightarrow> error + jsval" where
  "push v x =
     bindE (methodOf v ''push'')
       (\<lambda>u. case v of Arr xs ps \<Rightarrow> Inr (Arr (xs @ [x]) ps) | w \<Rightarrow> Inl TypeError)"

text \<open>\<^verbatim>\<open>a.findIndex(p)\<close> as an integer, \<open>-1\<close> when no element satisfies \<open>p\<close>.\<close>

fun findIndexFrom :: "('a \<Rightarrow> bool) \<Rightarrow> int \<Rightarrow> 'a list \<Rightarrow> int" where
  "findIndexFrom p i [] = - 1"
| "findIndexFrom p i (x # xs) = (if p x then i else findIndexFrom p (i + 1) xs)"

definition findIndex :: "('a \<Rightarrow> bool) \<Rightarrow> 'a list \<Rightarrow> int" where
  "findIndex p xs = findIndexFrom p 0 xs"

text \<open>\<^verbatim>\<open>a.splice(start, 1)\<close> on the elements: a negative \<open>start\<close> counts from the end
  (and is clamped at 0), one beyond the end removes nothing.\<close>

definition splice1 :: "int \<Rightarrow> 'a list \<Rightarrow> 'a list" where
  "splice1 start xs =
     (let n = int (length xs);
          s = (if start < 0 then max (n + start) 0 else min start n);
          i = nat s
      in take i xs @ drop (i + 1) xs)"

text \<open>\<^verbatim>\<open>s.split(c)\<close> and \<^verbatim>\<open>parts.join(c)\<close> for a one-character separator.\<close>

fun split_on :: "char \<Rightarrow> string \<Rightarrow> string list" where
  "split_on c [] = [[]]"
| "split_on c (x # xs) =
     (if x = c then [] # split_on c xs
      else (case split_on c xs of [] \<Rightarrow> [[x]] | w # ws \<Rightarrow> (x # w) # ws))"

fun join_with :: "char \<Rightarrow> string list \<Rightarrow> string" where
  "join_with c [] = []"
| "join_with c [w] = w"
| "join_with c (w # ws) = w @ c # join_with c ws"

text \<open>The heap: the object at an address, and what a value shows, a heap object being
  looked up. An address beyond the heap belongs to no state of the program.\<close>

definition deref :: "jsval list \<Rightarrow> jsval \<Rightarrow> jsval" where
  "deref h v = (case v of Ref a \<Rightarrow> (if a < length h then h ! a else Undefined) | w \<Rightarrow> w)"

fun isArr :: "jsval \<Rightarrow> bool" where
  "isArr (Arr xs ps) = True"
| "isArr v = False"

fun isObj :: "jsval \<Rightarrow> bool" where
  "isObj (Obj ps) = True"
| "isObj v = False"

text \<open>An object or an array that comes from outside the store becomes a heap object;
  what is no object is held by value. A file body is data: a built-in member or an
  address is none.\<close>

definition indexable :: "jsval \<Rightarrow> bool" where
  "indexable j = (isObj j \<or> isArr j)"

fun isData :: "jsval \<Rightarrow> bool" where
  "isData (Ref a) = False"
| "isData (Native k) = False"
| "isData v = True"

definition intern :: "jsval \<Rightarrow> jsval list \<Rightarrow> jsval \<times> jsval list" where
  "intern v h = (if indexable v then (Ref (length h), h @ [v]) else (v, h))"

section \<open>The file cache\<close>

text \<open>The two-level table of the cache module: \<^verbatim>\<open>data[bin][key]\<close>. A bin that was never
  written is absent. Both tables are plain objects, so a name that is no own property
  but is one of a member of \<^verbatim>\<open>Object.prototype\<close> finds that member, which is no cache
  entry: such a lookup, and a write that would reach the member or the prototype, has
  the outcome \<open>Unmodelled\<close>.\<close>

type_synonym 'v cacheData = "(string \<times> (string \<times> 'v) list) list"

definition cache_set :: "'v cacheData \<Rightarrow> string \<Rightarrow> string \<Rightarrow> 'v \<Rightarrow> error + 'v cacheData" where
  "cache_set d bin key v =
     (if map_of d bin = None \<and> \<not> plainName bin then Inl Unmodelled
      else
        let d1 = (if map_of d bin = None then AList.update bin [] d else d)
        in (case map_of d1 bin of
              None \<Rightarrow> Inr d1
            | Some b \<Rightarrow>
                (if key = ''__proto__'' \<and> map_of b key = None then Inl Unmodelled
                 else Inr (AList.update bin (AList.update key v b) d1))))"

definition cache_get :: "'v cacheData \<Rightarrow> string \<Rightarrow> string \<Rightarrow> error + 'v option" where
  "cache_get d bin key =
     (case map_of d bin of
        None \<Rightarrow> (if plainName bin then Inr None else Inl Unmodelled)
      | Some b \<Rightarrow>
          (case map_of b key of
             Some v \<Rightarrow> Inr (Some v)
           | None \<Rightarrow> (if plainName key then Inr None else Inl Unmodelled)))"

definition cache_remove :: "'v cacheData \<Rightarrow> string \<Rightarrow> string \<Rightarrow> error + 'v cacheData" where
  "cache_remove d bin key =
     (case map_of d bin of
        None \<Rightarrow> (if plainName bin then Inr d else Inl Unmodelled)
      | Some b \<Rightarrow> Inr (AList.update bin (AList.delete key b) d))"

definition cache_countItems :: "'v cacheData \<Rightarrow> string \<Rightarrow> error + nat" where
  "cache_countItems d bin =
     (case map_of d bin of
        None \<Rightarrow> (if plainName bin then Inr 0 else Inl Unmodelled)
      | Some b \<Rightarrow> Inr (length b))"

definition cache_reset :: "'v cacheData \<Rightarrow> string \<Rightarrow> error + 'v cacheData" where
  "cache_reset d bin =
     (if bin = ''__proto__'' \<and> map_of d bin = None then Inl Unmodelled
      else Inr (AList.update bin [] d))"

section \<open>The indexed store\<close>

definition JSON_ITEMS :: string where "JSON_ITEMS = ''_json''"
definition MAIN :: string where "MAIN = ''main''"
definition VARIANTS :: string where "VARIANTS = ''variants''"
definition FILENAME :: string where "FILENAME = ''__FILENAME__''"

record fileContents =
  raw :: jsval
  json :: jsval

datatype logEntry = Warn string | Debug string

text \<open>The state of the module: the live tree, the staging tree, the file cache (its
  entries hold heap objects by address), the heap of the objects that came from files,
  and what was logged.\<close>

record store =
  data :: jsval
  stage :: jsval
  cache :: "fileContents cacheData"
  heap :: "jsval list"
  logged :: "logEntry list"

record options =
  useStage :: bool
  useCache :: bool

text \<open>The post-processor module, as \<^verbatim>\<open>getPostProcessor()\<close> hands it over: each hook may be
  missing. \<^verbatim>\<open>processFile\<close> returns the rewritten raw and parsed contents; \<^verbatim>\<open>storeAdd\<close> and
  \<^verbatim>\<open>storeRemove\<close> receive the store and may change it. Any hook may throw.\<close>

record postProcessor =
  processFile :: "(string \<Rightarrow> string \<Rightarrow> jsval \<Rightarrow> jsval \<Rightarrow> store \<Rightarrow> error + jsval \<times> jsval) option"
  storeAdd :: "(string \<Rightarrow> string \<Rightarrow> jsval \<Rightarrow> jsval \<Rightarrow> store \<Rightarrow> error + store) option"
  storeRemove :: "(string \<Rightarrow> store \<Rightarrow> error + store) option"

text \<open>What the store imports and this repository's sources do not contain: \<^verbatim>\<open>path.join\<close>,
  \<^verbatim>\<open>getFileContents\<close> and \<^verbatim>\<open>getVariantName\<close> of \<^verbatim>\<open>fsUtils\<close> (a variant name or \<^verbatim>\<open>null\<close>),
  and the configured post-processor (\<open>None\<close> when \<^verbatim>\<open>config.postProcessor\<close> is unset). The
  post-processor is taken as loaded: \<^verbatim>\<open>getPostProcessor()\<close> does not fail here.
  \<^verbatim>\<open>getFileContents\<close> hands over the contents by value, new objects at every call.\<close>

record env =
  pathJoin :: "string \<Rightarrow> string \<Rightarrow> string"
  getFileContents :: "string \<Rightarrow> fileContents"
  getVariantName :: "string \<Rightarrow> string option"
  getPostProcessor :: "postProcessor option"

text \<open>\<^verbatim>\<open>if (variantName)\<close>: \<^verbatim>\<open>null\<close> and the empty string are both falsy.\<close>

definition variantOf :: "env \<Rightarrow> string \<Rightarrow> string option" where
  "variantOf env file =
     (case getVariantName env file of
        None \<Rightarrow> None
      | Some v \<Rightarrow> (if v = [] then None else Some v))"

definition storeDataSkeleton :: jsval where
  "storeDataSkeleton = Obj [(JSON_ITEMS, Obj [(MAIN, Arr [] []), (VARIANTS, Obj [])])]"

definition emptyStore :: store where
  "emptyStore =
     \<lparr> data = storeDataSkeleton, stage = storeDataSkeleton, cache = [], heap = [], logged = [] \<rparr>"

text \<open>\<^verbatim>\<open>json.__FILENAME__ = file\<close> on a value, and on the heap for the parsed contents
  \<open>j\<close> of a file: a heap object takes the property in place, a primitive ignores the
  write, and a write onto a built-in member is outside the model.\<close>

fun withFilename :: "jsval \<Rightarrow> string \<Rightarrow> jsval" where
  "withFilename (Obj ps) file = Obj (AList.update FILENAME (Str file) ps)"
| "withFilename (Arr xs ps) file = Arr xs (AList.update FILENAME (Str file) ps)"
| "withFilename v file = v"

fun writeFilename :: "jsval \<Rightarrow> string \<Rightarrow> jsval list \<Rightarrow> error + jsval list" where
  "writeFilename (Ref a) file h =
     Inr (if a < length h then h[a := withFilename (h ! a) file] else h)"
| "writeFilename (Native k) file h = Inl Unmodelled"
| "writeFilename v file h = Inr h"

text \<open>\<^verbatim>\<open>addFileToJsonItems(dataLeaf, file, jsonFileContents)\<close>, returning \<open>dataLeaf\<close> as it is
  after the call. \<open>j\<close> is the parsed document; its \<^verbatim>\<open>__FILENAME__\<close> is written in \<open>add\<close>
  below.\<close>

definition addFileToJsonItems :: "env \<Rightarrow> jsval \<Rightarrow> string \<Rightarrow> jsval \<Rightarrow> error + jsval" where
  "addFileToJsonItems env leaf file j =
     (if truthy j then
        (case variantOf env file of
           Some variantName \<Rightarrow>
             bindE (getProp leaf JSON_ITEMS) (\<lambda>items.
             bindE (getProp items VARIANTS) (\<lambda>vars.
             bindE (getProp vars variantName) (\<lambda>cur.
             bindE (if \<not> truthy cur then setProp vars variantName (Arr [] []) else Inr vars) (\<lambda>vars1.
             bindE (getProp vars1 variantName) (\<lambda>group.
             bindE (push group j) (\<lambda>group'.
               Inr (writeBack leaf JSON_ITEMS
                     (writeBack items VARIANTS (writeBack vars1 variantName group')))))))))
         | None \<Rightarrow>
             bindE (getProp leaf JSON_ITEMS) (\<lambda>items.
             bindE (getProp items MAIN) (\<lambda>m.
             bindE (push m j) (\<lambda>m'.
               Inr (writeBack leaf JSON_ITEMS (writeBack items MAIN m'))))))
      else Inr leaf)"

text \<open>The predicate of both \<^verbatim>\<open>findIndex\<close> calls: \<^verbatim>\<open>item?.__FILENAME__ === file\<close>. The item is
  looked up on the heap.\<close>

definition hasFilename :: "jsval list \<Rightarrow> string \<Rightarrow> jsval \<Rightarrow> bool" where
  "hasFilename h file item = (optProp (deref h item) FILENAME = Inr (Str file))"

text \<open>\<^verbatim>\<open>findIndex\<close> and \<^verbatim>\<open>splice(fileIndex, 1)\<close> on a sequence of the index.\<close>

definition spliceFile :: "jsval list \<Rightarrow> string \<Rightarrow> jsval \<Rightarrow> error + jsval" where
  "spliceFile h file v =
     bindE (methodOf v ''findIndex'') (\<lambda>u.
     bindE (methodOf v ''splice'') (\<lambda>u'.
       (case v of
          Arr xs ps \<Rightarrow> Inr (Arr (splice1 (findIndex (hasFilename h file) xs) xs) ps)
        | w \<Rightarrow> Inl TypeError)))"

text \<open>\<^verbatim>\<open>removeFileFromJsonItems(dataLeaf, file)\<close>, returning \<open>dataLeaf\<close> as it is after the
  call.\<close>

definition removeFileFromJsonItems :: "env \<Rightarrow> jsval list \<Rightarrow> jsval \<Rightarrow> string \<Rightarrow> error + jsval" where
  "removeFileFromJsonItems env h leaf file =
     (case variantOf env file of
        Some variantName \<Rightarrow>
          bindE (optProp leaf JSON_ITEMS) (\<lambda>items.
          bindE (optProp items VARIANTS) (\<lambda>vars.
          bindE (optProp vars variantName) (\<lambda>group.
            if truthy group then
              bindE (spliceFile h file group) (\<lambda>group'.
              bindE (if propOf group' ''length'' = Num 0 then deleteProp vars variantName
                     else Inr (writeBack vars variantName group')) (\<lambda>vars'.
                Inr (writeBack leaf JSON_ITEMS (writeBack items VARIANTS vars'))))
            else Inr leaf)))
      | None \<Rightarrow>
          bindE (optProp leaf JSON_ITEMS) (\<lambda>items.
          bindE (optProp items MAIN) (\<lambda>m.
            if truthy m then
              bindE (spliceFile h file m) (\<lambda>m'.
                Inr (writeBack leaf JSON_ITEMS (writeBack items MAIN m')))
            else Inr leaf)))"

text \<open>\<^verbatim>\<open>meetsPathRequirements(pathParts)\<close> and the warning it logs.\<close>

definition skipMessage :: "string list \<Rightarrow> string" where
  "skipMessage pathParts =
     ''Skipping file '' @ [CHR 0x22] @ join_with CHR ''/'' pathParts @ [CHR 0x22]
       @ '' since it contains '' @ [CHR 0x22] @ JSON_ITEMS @ [CHR 0x22]
       @ '', a reserved name. Please, rename it.''"

definition meetsPathRequirements :: "string list \<Rightarrow> logEntry list \<Rightarrow> bool \<times> logEntry list" where
  "meetsPathRequirements pathParts lg =
     (if JSON_ITEMS \<in> set pathParts then (False, lg @ [Warn (skipMessage pathParts)])
      else (True, lg))"

text \<open>\<^verbatim>\<open>deepClone(object)\<close>, that is \<^verbatim>\<open>JSON.parse(JSON.stringify(object))\<close>, on a value held
  by value: a property holding \<^verbatim>\<open>undefined\<close> is dropped, a hole of an array becomes
  \<^verbatim>\<open>null\<close>, and the named properties of an array are lost. The source applies it to the
  skeleton only.\<close>

fun deepClone :: "jsval \<Rightarrow> jsval" where
  "deepClone (Obj ps) =
     Obj (map (\<lambda>kv. (fst kv, deepClone (snd kv))) (filter (\<lambda>kv. snd kv \<noteq> Undefined) ps))"
| "deepClone (Arr xs ps) = Arr (map (\<lambda>x. if x = Undefined then Null else deepClone x) xs) []"
| "deepClone v = v"

text \<open>The \<^verbatim>\<open>forEach\<close> of \<^verbatim>\<open>add\<close> over the path parts, returning the object the walk started
  from as it is after the walk. \<open>content\<close> is \<^verbatim>\<open>jsonFileContents || rawFileContents\<close>. The
  update of the root index, which the source performs while it handles the last part,
  follows the walk in \<open>add\<close> below.\<close>

fun addWalk :: "env \<Rightarrow> string \<Rightarrow> jsval \<Rightarrow> jsval \<Rightarrow> jsval \<Rightarrow> string list \<Rightarrow> error + jsval" where
  "addWalk env file content j leaf [] = Inr leaf"
| "addWalk env file content j leaf [part] = setProp leaf part content"
| "addWalk env file content j leaf (part # p2 # rest) =
     bindE (getProp leaf part) (\<lambda>cur.
     bindE (if \<not> truthy cur then setProp leaf part (deepClone storeDataSkeleton) else Inr leaf)
       (\<lambda>leaf1.
     bindE (getProp leaf1 part) (\<lambda>child.
     bindE (addFileToJsonItems env child file j) (\<lambda>child1.
       if truthy child1
       then bindE (addWalk env file content j child1 (p2 # rest))
              (\<lambda>child2. Inr (writeBack leaf1 part child2))
       else addWalk env file content j leaf1 (p2 # rest)))))"

definition runProcessFile ::
  "env \<Rightarrow> string \<Rightarrow> string \<Rightarrow> jsval \<Rightarrow> jsval \<Rightarrow> store \<Rightarrow> error + jsval \<times> jsval" where
  "runProcessFile env dataDir file rawC jsonC s =
     (case getPostProcessor env of
        None \<Rightarrow> Inr (rawC, jsonC)
      | Some pp \<Rightarrow>
          (case processFile pp of
             None \<Rightarrow> Inr (rawC, jsonC)
           | Some hook \<Rightarrow> hook dataDir file rawC jsonC s))"

definition runStoreAdd ::
  "env \<Rightarrow> string \<Rightarrow> string \<Rightarrow> jsval \<Rightarrow> jsval \<Rightarrow> store \<Rightarrow> error + store" where
  "runStoreAdd env dataDir file rawC jsonC s =
     (case getPostProcessor env of
        None \<Rightarrow> Inr s
      | Some pp \<Rightarrow>
          (case storeAdd pp of
             None \<Rightarrow> Inr s
           | Some hook \<Rightarrow> hook dataDir file rawC jsonC s))"

definition runStoreRemove :: "env \<Rightarrow> string \<Rightarrow> store \<Rightarrow> error + store" where
  "runStoreRemove env file s =
     (case getPostProcessor env of
        None \<Rightarrow> Inr s
      | Some pp \<Rightarrow>
          (case storeRemove pp of
             None \<Rightarrow> Inr s
           | Some hook \<Rightarrow> hook file s))"

text \<open>The first half of \<^verbatim>\<open>store.add\<close>, from \<^verbatim>\<open>path.join\<close> to the contents that are going to
  be stored: the file is read unless the caller asked for the cache and the cache has an
  entry, in which case the objects of the entry are used again; the objects of a file
  that is read become heap objects, and so does an object that \<^verbatim>\<open>processFile\<close> returns by
  value; \<^verbatim>\<open>__FILENAME__\<close> is written onto truthy parsed contents. The source writes it in
  its first call of \<^verbatim>\<open>addFileToJsonItems\<close>, which every call of \<^verbatim>\<open>add\<close> that returns has
  made. The result is the raw contents, the parsed contents and the store with its new
  cache and heap.\<close>

definition readFile :: "env \<Rightarrow> string \<Rightarrow> store \<Rightarrow> error + store" where
  "readFile env filePath s =
     (let fc = getFileContents env filePath
      in if \<not> isData (json fc) \<or> \<not> isData (raw fc) then Inl Unmodelled
         else
           let jh = intern (json fc) (heap s);
               rh = intern (raw fc) (snd jh)
           in bindE (cache_set (cache s) ''file'' filePath \<lparr> raw = fst rh, json = fst jh \<rparr>)
                (\<lambda>c. Inr (s\<lparr>cache := c, heap := snd rh\<rparr>)))"

definition fetch ::
  "env \<Rightarrow> string \<Rightarrow> string \<Rightarrow> options \<Rightarrow> store \<Rightarrow> error + jsval \<times> jsval \<times> store" where
  "fetch env dataDir file opts s =
     (let filePath = pathJoin env dataDir file
      in bindE (if useCache opts then cache_get (cache s) ''file'' filePath else Inr None) (\<lambda>hit.
         bindE (if hit = None then readFile env filePath s else Inr s) (\<lambda>s1.
         bindE (cache_get (cache s1) ''file'' filePath) (\<lambda>entry.
           (case entry of
              None \<Rightarrow> Inl TypeError
            | Some fc \<Rightarrow>
                bindE (runProcessFile env dataDir file (raw fc) (json fc) s1) (\<lambda>rj.
                  let jh = intern (snd rj) (heap s1);
                      rh = intern (fst rj) (snd jh)
                  in bindE (if truthy (fst jh) then writeFilename (fst jh) file (snd rh)
                            else Inr (snd rh))
                       (\<lambda>h. Inr (fst rh, fst jh, s1\<lparr>heap := h\<rparr>))))))))"

text \<open>\<^verbatim>\<open>store.add(dataDir, file, options)\<close>. \<open>Inl\<close> is an exception that leaves the call.\<close>

definition add :: "env \<Rightarrow> string \<Rightarrow> string \<Rightarrow> options \<Rightarrow> store \<Rightarrow> error + store" where
  "add env dataDir file opts s =
     (if file = [] then Inr s
      else
        let pathParts = split_on CHR ''/'' file;
            req = meetsPathRequirements pathParts (logged s)
        in if \<not> fst req then Inr (s\<lparr>logged := snd req\<rparr>)
           else
             bindE (fetch env dataDir file opts s) (\<lambda>rjs.
               let r = fst rjs; j = fst (snd rjs); s1 = snd (snd rjs);
                   rootLeaf = (if useStage opts then stage s1 else data s1);
                   content = (if truthy j then j else r)
               in
               bindE (addWalk env file content j rootLeaf pathParts) (\<lambda>root1.
               bindE (addFileToJsonItems env root1 file j) (\<lambda>root2.
                 runStoreAdd env dataDir file r j
                   (if useStage opts then s1\<lparr>stage := root2\<rparr>
                    else s1\<lparr>data := root2\<rparr>)))))"

text \<open>The \<^verbatim>\<open>forEach\<close> of \<^verbatim>\<open>remove\<close>; the removal from the root index follows it in
  \<open>remove\<close>.\<close>

fun removeWalk :: "env \<Rightarrow> jsval list \<Rightarrow> string \<Rightarrow> jsval \<Rightarrow> string list \<Rightarrow> error + jsval" where
  "removeWalk env h file leaf [] = Inr leaf"
| "removeWalk env h file leaf [part] = deleteProp leaf part"
| "removeWalk env h file leaf (part # p2 # rest) =
     bindE (getProp leaf part) (\<lambda>child.
     bindE (removeFileFromJsonItems env h child file) (\<lambda>child1.
       if truthy child1
       then bindE (removeWalk env h file child1 (p2 # rest))
              (\<lambda>child2. Inr (writeBack leaf part child2))
       else removeWalk env h file leaf (p2 # rest)))"

text \<open>\<^verbatim>\<open>store.remove(file)\<close>.\<close>

definition remove :: "env \<Rightarrow> string \<Rightarrow> store \<Rightarrow> error + store" where
  "remove env file s =
     bindE (removeWalk env (heap s) file (data s) (split_on CHR ''/'' file)) (\<lambda>root1.
     bindE (removeFileFromJsonItems env (heap s) root1 file) (\<lambda>root2.
       runStoreRemove env file (s\<lparr>data := root2\<rparr>)))"

text \<open>\<^verbatim>\<open>store.update(dataDir, file)\<close>: \<^verbatim>\<open>remove\<close>, then \<^verbatim>\<open>add\<close> with no options.\<close>

definition update :: "env \<Rightarrow> string \<Rightarrow> string \<Rightarrow> store \<Rightarrow> error + store" where
  "update env dataDir file s =
     bindE (remove env file s)
       (\<lambda>s1. add env dataDir file \<lparr> useStage = False, useCache = False \<rparr> s1)"

text \<open>\<^verbatim>\<open>store.get(file)\<close>: the reducer is \<^verbatim>\<open>(prev, curr) => prev && prev[curr]\<close>; a truthy
  value is never \<^verbatim>\<open>null\<close> or \<^verbatim>\<open>undefined\<close>. The result is the value as the caller holds
  it, a heap object by its address.\<close>

fun getWalk :: "jsval list \<Rightarrow> jsval \<Rightarrow> string list \<Rightarrow> error + jsval" where
  "getWalk h prev [] = Inr prev"
| "getWalk h prev (part # rest) =
     (if truthy prev then bindE (getProp (deref h prev) part) (\<lambda>v. getWalk h v rest)
      else getWalk h prev rest)"

definition get :: "store \<Rightarrow> string \<Rightarrow> error + jsval" where
  "get s file = getWalk (heap s) (data s) (split_on CHR ''/'' file)"

text \<open>\<^verbatim>\<open>store.promoteStage()\<close>.\<close>

definition promoteStage :: "store \<Rightarrow> store" where
  "promoteStage s = s\<lparr>data := stage s, stage := deepClone storeDataSkeleton\<rparr>"

section \<open>Directories along a path\<close>

text \<open>A directory of the tree is an object, held by value, whose own \<^verbatim>\<open>_json\<close> entry is an
  index: an object with an array \<^verbatim>\<open>main\<close> and an object \<^verbatim>\<open>variants\<close> whose entries are
  arrays, none of the arrays carrying a named property (which could hide a method).\<close>

fun isList :: "jsval \<Rightarrow> bool" where
  "isList (Arr xs ps) = (ps = [])"
| "isList v = False"

fun groupsOk :: "jsval \<Rightarrow> bool" where
  "groupsOk (Obj vps) = list_all (\<lambda>kv. isList (snd kv)) vps"
| "groupsOk v = False"

definition indexOk :: "jsval \<Rightarrow> bool" where
  "indexOk items = (isObj items \<and> isList (propOf items MAIN) \<and> groupsOk (propOf items VARIANTS))"

definition isDir :: "jsval \<Rightarrow> bool" where
  "isDir n = (isObj n \<and> indexOk (propOf n JSON_ITEMS))"

text \<open>\<open>dirsAlong leaf parts\<close>: on the way from \<open>leaf\<close> down the directory segments of
  \<open>parts\<close> (all but the last, which names the file), every segment that is there is a
  directory; a segment may be missing, and nothing is asked below a missing one.
  \<open>dirsPresent\<close> asks in addition that no directory segment is missing. Both look at own
  properties.\<close>

fun dirsAlong :: "jsval \<Rightarrow> string list \<Rightarrow> bool" where
  "dirsAlong leaf [] = True"
| "dirsAlong leaf [part] = isDir leaf"
| "dirsAlong leaf (part # p2 # rest) =
     (isDir leaf \<and> (if truthy (propOf leaf part) then dirsAlong (propOf leaf part) (p2 # rest) else True))"

fun dirsPresent :: "jsval \<Rightarrow> string list \<Rightarrow> bool" where
  "dirsPresent leaf [] = True"
| "dirsPresent leaf [part] = isDir leaf"
| "dirsPresent leaf (part # p2 # rest) = (isDir leaf \<and> dirsPresent (propOf leaf part) (p2 # rest))"

text \<open>The reducer of \<^verbatim>\<open>get\<close> on own properties of values held by value: on a path of plain
  names through directories it is what \<^verbatim>\<open>get\<close> computes.\<close>

definition andProp :: "jsval \<Rightarrow> string \<Rightarrow> jsval" where
  "andProp prev part = (if truthy prev then propOf prev part else prev)"

text \<open>The names that a call for a file hands to a lookup in a plain object: the segments
  of the path, the variant name, and the key of the cache. And what makes the contents
  of a file data, and those of a cache entry well formed: an address lies within the heap
  and is that of an object or an array.\<close>

definition plainVariant :: "env \<Rightarrow> string \<Rightarrow> bool" where
  "plainVariant env file = (case variantOf env file of None \<Rightarrow> True | Some v \<Rightarrow> plainName v)"

definition plainNames :: "env \<Rightarrow> string \<Rightarrow> string \<Rightarrow> bool" where
  "plainNames env dataDir file =
     (plainName (pathJoin env dataDir file) \<and> plainVariant env file
      \<and> list_all plainName (split_on CHR ''/'' file))"

definition fileIsData :: "env \<Rightarrow> string \<Rightarrow> string \<Rightarrow> bool" where
  "fileIsData env dataDir file =
     (isData (json (getFileContents env (pathJoin env dataDir file)))
      \<and> isData (raw (getFileContents env (pathJoin env dataDir file))))"

fun storable :: "jsval list \<Rightarrow> jsval \<Rightarrow> bool" where
  "storable h (Ref a) = (a < length h \<and> indexable (h ! a))"
| "storable h (Native k) = False"
| "storable h v = True"

text \<open>Whether \<^verbatim>\<open>add\<close> takes the contents from the cache, and the contents it works with,
  by value: those of the cache entry, or those of the file.\<close>

definition cached :: "env \<Rightarrow> string \<Rightarrow> string \<Rightarrow> options \<Rightarrow> store \<Rightarrow> fileContents option" where
  "cached env dataDir file opts s =
     (if useCache opts
      then (case cache_get (cache s) ''file'' (pathJoin env dataDir file) of
              Inr (Some fc) \<Rightarrow> Some fc
            | other \<Rightarrow> None)
      else None)"

definition usable :: "env \<Rightarrow> string \<Rightarrow> string \<Rightarrow> options \<Rightarrow> store \<Rightarrow> bool" where
  "usable env dataDir file opts s =
     (case cached env dataDir file opts s of
        Some fc \<Rightarrow> storable (heap s) (json fc) \<and> storable (heap s) (raw fc)
      | None \<Rightarrow> fileIsData env dataDir file)"

definition bodyRead :: "env \<Rightarrow> string \<Rightarrow> string \<Rightarrow> options \<Rightarrow> store \<Rightarrow> fileContents" where
  "bodyRead env dataDir file opts s =
     (case cached env dataDir file opts s of
        Some fc \<Rightarrow> \<lparr> raw = deref (heap s) (raw fc), json = deref (heap s) (json fc) \<rparr>
      | None \<Rightarrow> getFileContents env (pathJoin env dataDir file))"

text \<open>The parsed contents as they enter the index, with \<^verbatim>\<open>__FILENAME__\<close> written, and the
  document \<^verbatim>\<open>jsonFileContents || rawFileContents\<close> that is stored at the leaf, both by
  value.\<close>

definition insertedJson :: "fileContents \<Rightarrow> string \<Rightarrow> jsval" where
  "insertedJson fc file = withFilename (json fc) file"

definition documentOf :: "fileContents \<Rightarrow> string \<Rightarrow> jsval" where
  "documentOf fc file = (if truthy (json fc) then withFilename (json fc) file else raw fc)"

section \<open>What an index is expected to hold\<close>

text \<open>The two sequences of the index of a directory, as own property reads show them, and
  the statement that a directory's index holds given sequences: \<^verbatim>\<open>main\<close> is the array of
  the one, and \<^verbatim>\<open>variants[v]\<close> is the array of the other for the variant \<open>v\<close>, or is not
  there when that sequence is empty. \<open>shown\<close> is a sequence as a reader sees it, every
  heap object looked up.\<close>

definition mainVal :: "jsval \<Rightarrow> jsval" where
  "mainVal n = propOf (propOf n JSON_ITEMS) MAIN"

definition groupVal :: "jsval \<Rightarrow> string \<Rightarrow> jsval" where
  "groupVal n v = propOf (propOf (propOf n JSON_ITEMS) VARIANTS) v"

definition groupShown :: "jsval list \<Rightarrow> jsval" where
  "groupShown xs = (if xs = [] then Undefined else Arr xs [])"

definition indexIs :: "jsval \<Rightarrow> jsval list \<Rightarrow> (string \<Rightarrow> jsval list) \<Rightarrow> bool" where
  "indexIs n M G = (isDir n \<and> mainVal n = Arr M [] \<and> (\<forall>v. groupVal n v = groupShown (G v)))"

fun shown :: "jsval list \<Rightarrow> jsval \<Rightarrow> jsval" where
  "shown h (Arr xs ps) = Arr (map (deref h) xs) ps"
| "shown h v = v"

text \<open>What \<^verbatim>\<open>findIndex\<close> and \<^verbatim>\<open>splice\<close> together do to a sequence of an index.\<close>

definition removeFirst :: "jsval list \<Rightarrow> string \<Rightarrow> jsval list \<Rightarrow> jsval list" where
  "removeFirst h file xs = splice1 (findIndex (hasFilename h file) xs) xs"

text \<open>A walk by own property reads, and three ways a path of plain names can lie in a
  tree: every directory segment is a directory or is not there at all; a value that is
  not there stands for a new directory; every directory segment is a directory.\<close>

definition walk :: "jsval \<Rightarrow> string list \<Rightarrow> jsval" where
  "walk v L = foldl propOf v L"

definition freeAlong :: "jsval \<Rightarrow> string list \<Rightarrow> bool" where
  "freeAlong leaf ps =
     (isDir leaf \<and> list_all plainName ps
      \<and> (\<forall>L. strict_prefix L ps \<longrightarrow> isDir (walk leaf L) \<or> walk leaf L = Undefined))"

definition dirOrNew :: "jsval \<Rightarrow> jsval" where
  "dirOrNew v = (if v = Undefined then storeDataSkeleton else v)"

definition presentAlong :: "jsval \<Rightarrow> string list \<Rightarrow> bool" where
  "presentAlong leaf ps = (list_all plainName ps \<and> (\<forall>L. strict_prefix L ps \<longrightarrow> isDir (walk leaf L)))"

text \<open>The bookkeeping of a run of operations on the live tree: the files that are
  ingested at the moment, in the order of their ingestion and with the contents that
  were read, and the directory levels that were created, each as the list of its
  segments from the root (the root is the empty list).\<close>

datatype operation = Add string string | Remove string

record ingestion =
  ingested :: "(string \<times> fileContents) list"
  levels :: "string list list"

definition emptyIngestion :: ingestion where
  "emptyIngestion = \<lparr> ingested = [], levels = [[]] \<rparr>"

definition pathParts :: "string \<Rightarrow> string list" where
  "pathParts file = split_on CHR ''/'' file"

definition properPrefixes :: "string list \<Rightarrow> string list list" where
  "properPrefixes ps = map (\<lambda>i. take i ps) [0..<length ps]"

text \<open>A file lies at or below a level when the level is a proper prefix of its path.\<close>

definition under :: "string list \<Rightarrow> string \<Rightarrow> bool" where
  "under L file = strict_prefix L (pathParts file)"

text \<open>The parsed documents ingested at or below a level, in ingestion order: those that
  are no variant, and those of a given variant. First by value, as a reader sees them;
  then as the values that the leaves of the tree hold for them.\<close>

definition expectedMain :: "env \<Rightarrow> string list \<Rightarrow> (string \<times> fileContents) list \<Rightarrow> jsval list" where
  "expectedMain env L F =
     map (\<lambda>x. insertedJson (snd x) (fst x))
       (filter (\<lambda>x. truthy (json (snd x)) \<and> variantOf env (fst x) = None \<and> under L (fst x)) F)"

definition expectedGroup ::
  "env \<Rightarrow> string list \<Rightarrow> (string \<times> fileContents) list \<Rightarrow> string \<Rightarrow> jsval list" where
  "expectedGroup env L F v =
     map (\<lambda>x. insertedJson (snd x) (fst x))
       (filter (\<lambda>x. truthy (json (snd x)) \<and> variantOf env (fst x) = Some v \<and> under L (fst x)) F)"

definition slotOf :: "jsval \<Rightarrow> string \<Rightarrow> jsval" where
  "slotOf root file = walk root (pathParts file)"

definition slotMain :: "env \<Rightarrow> jsval \<Rightarrow> string list \<Rightarrow> (string \<times> fileContents) list \<Rightarrow> jsval list" where
  "slotMain env root L F =
     map (\<lambda>x. slotOf root (fst x))
       (filter (\<lambda>x. truthy (json (snd x)) \<and> variantOf env (fst x) = None \<and> under L (fst x)) F)"

definition slotGroup ::
  "env \<Rightarrow> jsval \<Rightarrow> string list \<Rightarrow> (string \<times> fileContents) list \<Rightarrow> string \<Rightarrow> jsval list" where
  "slotGroup env root L F v =
     map (\<lambda>x. slotOf root (fst x))
       (filter (\<lambda>x. truthy (json (snd x)) \<and> variantOf env (fst x) = Some v \<and> under L (fst x)) F)"

text \<open>A value of the tree holds a document: an object or an array is a heap object with
  that contents, anything else is the value itself.\<close>

fun holds :: "jsval list \<Rightarrow> jsval \<Rightarrow> jsval \<Rightarrow> bool" where
  "holds h (Ref a) d = (indexable d \<and> a < length h \<and> h ! a = d)"
| "holds h v d = (\<not> indexable d \<and> v = d)"

text \<open>The operations a run may take. An \<^verbatim>\<open>add\<close> (with no options) takes a path that
  \<^verbatim>\<open>add\<close> does not refuse, whose names are plain and whose file holds data, that is not
  ingested, that is no directory level and that does not pass through an ingested file.
  A \<^verbatim>\<open>remove\<close> takes the path of an ingested file whose parsed contents are an object or
  an array.\<close>

definition canAdd :: "env \<Rightarrow> string \<Rightarrow> string \<Rightarrow> ingestion \<Rightarrow> bool" where
  "canAdd env dataDir file g =
     (file \<noteq> [] \<and> JSON_ITEMS \<notin> set (pathParts file)
      \<and> plainNames env dataDir file
      \<and> fileIsData env dataDir file
      \<and> file \<notin> set (map fst (ingested g))
      \<and> pathParts file \<notin> set (levels g)
      \<and> list_all (\<lambda>x. \<not> strict_prefix (pathParts (fst x)) (pathParts file)) (ingested g))"

definition canRemove :: "string \<Rightarrow> ingestion \<Rightarrow> bool" where
  "canRemove file g =
     (case map_of (ingested g) file of None \<Rightarrow> False | Some fc \<Rightarrow> indexable (json fc))"

fun allowed :: "env \<Rightarrow> operation \<Rightarrow> ingestion \<Rightarrow> bool" where
  "allowed env (Add dataDir file) g = canAdd env dataDir file g"
| "allowed env (Remove file) g = canRemove file g"

fun track :: "env \<Rightarrow> operation \<Rightarrow> ingestion \<Rightarrow> ingestion" where
  "track env (Add dataDir file) g =
     \<lparr> ingested = ingested g @ [(file, getFileContents env (pathJoin env dataDir file))],
       levels = levels g @ properPrefixes (pathParts file) \<rparr>"
| "track env (Remove file) g =
     g\<lparr> ingested := filter (\<lambda>x. fst x \<noteq> file) (ingested g) \<rparr>"

fun perform :: "env \<Rightarrow> operation \<Rightarrow> store \<Rightarrow> error + store" where
  "perform env (Add dataDir file) s = add env dataDir file \<lparr> useStage = False, useCache = False \<rparr> s"
| "perform env (Remove file) s = remove env file s"

fun allowedAll :: "env \<Rightarrow> operation list \<Rightarrow> ingestion \<Rightarrow> bool" where
  "allowedAll env [] g = True"
| "allowedAll env (x # xs) g = (allowed env x g \<and> allowedAll env xs (track env x g))"

fun trackAll :: "env \<Rightarrow> operation list \<Rightarrow> ingestion \<Rightarrow> ingestion" where
  "trackAll env [] g = g"
| "trackAll env (x # xs) g = trackAll env xs (track env x g)"

fun performAll :: "env \<Rightarrow> operation list \<Rightarrow> store \<Rightarrow> error + store" where
  "performAll env [] s = Inr s"
| "performAll env (x # xs) s = bindE (perform env x s) (performAll env xs)"

text \<open>The invariant of such a run: the bookkeeping is consistent, the leaf of every
  ingested file holds its document, every level's index holds the expected sequences,
  and below a level nothing is stored under a name that is neither a level nor an
  ingested file.\<close>

definition tracked :: "env \<Rightarrow> jsval \<Rightarrow> jsval list \<Rightarrow> ingestion \<Rightarrow> bool" where
  "tracked env root h g =
     ([] \<in> set (levels g)
      \<and> (\<forall>L \<in> set (levels g). JSON_ITEMS \<notin> set L \<and> list_all plainName L
            \<and> (\<forall>L'. prefix L' L \<longrightarrow> L' \<in> set (levels g)))
      \<and> distinct (map fst (ingested g))
      \<and> (\<forall>x \<in> set (ingested g).
            fst x \<noteq> [] \<and> JSON_ITEMS \<notin> set (pathParts (fst x))
            \<and> list_all plainName (pathParts (fst x)) \<and> plainVariant env (fst x)
            \<and> pathParts (fst x) \<notin> set (levels g)
            \<and> (\<forall>L. strict_prefix L (pathParts (fst x)) \<longrightarrow> L \<in> set (levels g))
            \<and> holds h (slotOf root (fst x)) (documentOf (snd x) (fst x)))
      \<and> (\<forall>L \<in> set (levels g).
            indexIs (walk root L) (slotMain env root L (ingested g)) (slotGroup env root L (ingested g)))
      \<and> (\<forall>L \<in> set (levels g). \<forall>k.
            k \<noteq> JSON_ITEMS \<and> L @ [k] \<notin> set (levels g)
            \<and> L @ [k] \<notin> pathParts ` fst ` set (ingested g)
            \<longrightarrow> propOf (walk root L) k = Undefined))"

section \<open>A concrete environment\<close>

text \<open>Modelled from the spec: \<^verbatim>\<open>getVariantName\<close> of \<^verbatim>\<open>fsUtils\<close> is imported by the store
  but is not among the sources. The spec gives the naming convention
  \<^verbatim>\<open><base>--<variant>.<ext>\<close>, a name without the separator being a main document: the
  variant is what follows the first separator in the file name, its extension taken off.
  (A declaration file among the sources names the separator, \<^verbatim>\<open>VARIANT_SEPARATOR\<close>, two
  hyphens, with the file \<^verbatim>\<open>12345--card.json\<close> as the variant \<^verbatim>\<open>card\<close> of \<^verbatim>\<open>12345.json\<close>.)\<close>

fun variantAfter :: "string \<Rightarrow> string option" where
  "variantAfter (a # b # cs) =
     (if a = CHR ''-'' \<and> b = CHR ''-'' then Some cs else variantAfter (b # cs))"
| "variantAfter cs = None"

definition stripExt :: "string \<Rightarrow> string" where
  "stripExt name =
     (case rev (split_on CHR ''.'' name) of
        [] \<Rightarrow> name
      | [w] \<Rightarrow> name
      | ext # ws \<Rightarrow> join_with CHR ''.'' (rev ws))"

definition specVariantName :: "string \<Rightarrow> string option" where
  "specVariantName file =
     (case rev (split_on CHR ''/'' file) of
        [] \<Rightarrow> None
      | name # dirs \<Rightarrow> variantAfter (stripExt name))"

text \<open>A file system with a few files under \<^verbatim>\<open>data\<close>, and no post-processor.\<close>

definition exampleFiles :: "string \<Rightarrow> fileContents" where
  "exampleFiles p =
     (if p = ''data/en/article/1.json''
        then \<lparr> raw = Str ''{title:one}'', json = Obj [(''title'', Str ''one'')] \<rparr>
      else if p = ''data/en/article/1--teaser.json''
        then \<lparr> raw = Str ''{teaser:one}'', json = Obj [(''teaser'', Str ''one'')] \<rparr>
      else if p = ''data/en/robots.txt''
        then \<lparr> raw = Str ''User-agent: *'', json = Null \<rparr>
      else if p = ''data/toString''
        then \<lparr> raw = Str ''to string'', json = Null \<rparr>
      else if p = ''data/notes''
        then \<lparr> raw = Str ''plain text'', json = Null \<rparr>
      else if p = ''data/notes/today.txt''
        then \<lparr> raw = Str ''today'', json = Null \<rparr>
      else if p = ''data/page--constructor.txt''
        then \<lparr> raw = Str ''a page'', json = Null \<rparr>
      else \<lparr> raw = Null, json = Null \<rparr>)"

definition exampleEnv :: env where
  "exampleEnv =
     \<lparr> pathJoin = (\<lambda>dir file. dir @ ''/'' @ file),
       getFileContents = exampleFiles,
       getVariantName = specVariantName,
       getPostProcessor = None \<rparr>"

definition liveOptions :: options where
  "liveOptions = \<lparr> useStage = False, useCache = False \<rparr>"

definition stageOptions :: options where
  "stageOptions = \<lparr> useStage = True, useCache = False \<rparr>"

definition stageCacheOptions :: options where
  "stageCacheOptions = \<lparr> useStage = True, useCache = True \<rparr>"

text \<open>The store after \<^verbatim>\<open>en/article/1.json\<close> has been added to the empty store.\<close>

definition exampleStore :: store where
  "exampleStore =
     (case add exampleEnv ''data'' ''en/article/1.json'' liveOptions emptyStore of
        Inr s \<Rightarrow> s
      | Inl e \<Rightarrow> emptyStore)"

text \<open>The store after the raw file \<^verbatim>\<open>en/robots.txt\<close> has been added to the empty store,
  and a run of four operations.\<close>

definition rawStore :: store where
  "rawStore =
     (case add exampleEnv ''data'' ''en/robots.txt'' liveOptions emptyStore of
        Inr s \<Rightarrow> s
      | Inl e \<Rightarrow> emptyStore)"

definition exampleOperations :: "operation list" where
  "exampleOperations =
     [Add ''data'' ''en/article/1.json'', Add ''data'' ''en/article/1--teaser.json'',
      Add ''data'' ''en/robots.txt'', Remove ''en/article/1--teaser.json'']"

section \<open>The module registry\<close>

text \<open>The registry of \<^verbatim>\<open>moduleHandler\<close>: the dictionary \<^verbatim>\<open>modules\<close>, keyed by module path,
  and what was logged. What a module exports is \<open>Some h\<close> for a truthy export \<open>h\<close> and
  \<open>None\<close> for a falsy one (\<^verbatim>\<open>undefined\<close>, \<^verbatim>\<open>null\<close>, \<^verbatim>\<open>0\<close>, the empty string, \<^verbatim>\<open>false\<close>); the
  dictionary holds either as an own property. It is a plain object: a read of a path
  that is no own property but names a member of \<^verbatim>\<open>Object.prototype\<close> finds that member,
  and a write of \<^verbatim>\<open>__proto__\<close> goes to the accessor of the prototype, which is outside the
  model. \<^verbatim>\<open>require\<close> and \<^verbatim>\<open>require.resolve\<close> belong to the platform and are parameters;
  both can throw.\<close>

datatype loadError = RequireFailed | NotLoaded string | NotModelled

datatype 'h found = Handle 'h | Member string

record 'h registry =
  modules :: "(string \<times> 'h option) list"
  traced :: "logEntry list"

record 'h loader =
  require :: "string \<Rightarrow> loadError + 'h option"
  requireResolve :: "string \<Rightarrow> loadError + string"

definition notLoadedMessage :: "string \<Rightarrow> string" where
  "notLoadedMessage modulePath =
     ''Query '' @ [CHR 0x22] @ modulePath @ [CHR 0x22] @ '' not loaded.''"

text \<open>\<^verbatim>\<open>moduleHandler.load(modulePath)\<close>: the result, or the error thrown, and the registry
  as the call leaves it.\<close>

definition load :: "'h loader \<Rightarrow> string \<Rightarrow> 'h registry \<Rightarrow> (loadError + 'h) \<times> 'h registry" where
  "load ld modulePath r =
     (let r1 = r\<lparr>modules := AList.delete modulePath (modules r)\<rparr>
      in (case require ld modulePath of
            Inl e \<Rightarrow> (Inl e, r1)
          | Inr v \<Rightarrow>
              (if modulePath = ''__proto__'' then (Inl NotModelled, r1)
               else
                 let r2 = r1\<lparr>modules := AList.update modulePath v (modules r1)\<rparr>
                 in (case map_of (modules r2) modulePath of
                       Some (Some h) \<Rightarrow>
                         (Inr h, r2\<lparr>traced := traced r2 @ [Debug (''Load for '' @ modulePath @ '' done.'')]\<rparr>)
                     | _ \<Rightarrow> (Inl (NotLoaded (notLoadedMessage modulePath)), r2)))))"

text \<open>\<^verbatim>\<open>moduleHandler.get(modulePath)\<close>: \<^verbatim>\<open>modules[modulePath] || moduleHandler.load(modulePath)\<close>.
  What it returns is a handle, or the member of \<^verbatim>\<open>Object.prototype\<close> that the read found.
  (The names \<open>get\<close> and \<open>remove\<close> are those of the store's operations in this theory.)\<close>

definition loadHandle ::
  "'h loader \<Rightarrow> string \<Rightarrow> 'h registry \<Rightarrow> (loadError + 'h found) \<times> 'h registry" where
  "loadHandle ld modulePath r =
     (case fst (load ld modulePath r) of
        Inl e \<Rightarrow> (Inl e, snd (load ld modulePath r))
      | Inr h \<Rightarrow> (Inr (Handle h), snd (load ld modulePath r)))"

definition getModule ::
  "'h loader \<Rightarrow> string \<Rightarrow> 'h registry \<Rightarrow> (loadError + 'h found) \<times> 'h registry" where
  "getModule ld modulePath r =
     (case map_of (modules r) modulePath of
        Some (Some h) \<Rightarrow> (Inr (Handle h), r)
      | Some None \<Rightarrow> loadHandle ld modulePath r
      | None \<Rightarrow> (if plainName modulePath then loadHandle ld modulePath r
                 else (Inr (Member modulePath), r)))"

text \<open>\<^verbatim>\<open>moduleHandler.remove(modulePath)\<close>: the entry of the platform's own module cache is
  not part of the registry; resolving the path can throw, after the trace was written
  and before the entry is deleted.\<close>

definition removeModule :: "'h loader \<Rightarrow> string \<Rightarrow> 'h registry \<Rightarrow> (loadError + unit) \<times> 'h registry" where
  "removeModule ld modulePath r =
     (let r1 = r\<lparr>traced := traced r @ [Debug (''Remove for '' @ modulePath @ '' done.'')]\<rparr>
      in (case requireResolve ld modulePath of
            Inl e \<Rightarrow> (Inl e, r1)
          | Inr p \<Rightarrow> (Inr (), r1\<lparr>modules := AList.delete modulePath (modules r1)\<rparr>)))"

text \<open>A loader for the examples: \<^verbatim>\<open>query/ok.js\<close> exports a handle, \<^verbatim>\<open>query/empty.js\<close>
  exports \<^verbatim>\<open>null\<close>, and nothing else can be required.\<close>

definition exampleLoader :: "nat loader" where
  "exampleLoader =
     \<lparr> require = (\<lambda>p. if p = ''query/ok.js'' then Inr (Some 1)
                       else if p = ''query/empty.js'' then Inr None
                       else Inl RequireFailed),
       requireResolve = (\<lambda>p. if p = ''query/ok.js'' \<or> p = ''query/empty.js'' then Inr p
                              else Inl RequireFailed) \<rparr>"

definition staleRegistry :: "nat registry" where
  "staleRegistry = \<lparr> modules = [(''query/empty.js'', Some 7), (''query/gone.js'', Some 8)], traced = [] \<rparr>"

section \<open>The include resolver\<close>

text \<open>\<^verbatim>\<open>s.toLowerCase()\<close> on the letters A to Z; every other character is kept. And
  \<^verbatim>\<open>s.endsWith(ending)\<close>.\<close>

definition toLowerChar :: "char \<Rightarrow> char" where
  "toLowerChar c =
     (if 65 \<le> (of_char c :: nat) \<and> (of_char c :: nat) \<le> 90
      then char_of ((of_char c :: nat) + 32) else c)"

definition toLowerCase :: "string \<Rightarrow> string" where
  "toLowerCase s = map toLowerChar s"

definition endsWith :: "string \<Rightarrow> string \<Rightarrow> bool" where
  "endsWith s ending =
     (length ending \<le> length s \<and> drop (length s - length ending) s = ending)"

datatype strategy = ConfigInclude | EntityInclude | CustomInclude | LocaleInclude | QueryAlias


fun attachAt :: "jsval \<Rightarrow> string list \<Rightarrow> jsval \<Rightarrow> error + jsval" where
  "attachAt d [] x = Inr x"
| "attachAt d [k] x = setProp d k x"
| "attachAt d (k # k2 # ks) x =
     bindE (getProp d k) (\<lambda>c.
     bindE (attachAt (if truthy c then c else Obj []) (k2 # ks) x) (\<lambda>c'. setProp d k c'))"

fun removeAt :: "jsval \<Rightarrow> string list \<Rightarrow> string \<Rightarrow> error + jsval" where
  "removeAt d [] key = deleteProp d key"
| "removeAt d (k # ks) key =
     bindE (getProp d k) (\<lambda>c.
       if nullish c then Inr d
       else bindE (removeAt c ks key) (\<lambda>c'. Inr (writeBack d k c')))"

text \<open>Modelled from the spec: the alias-without-type mounting strategy
  (\<^verbatim>\<open>aliasWithoutTypeIncludeParser\<close>) is imported by the resolver but is not among the
  sources. The spec has the dynamic pass mount the result at the alias path with the key
  removal of the static includes, the mount point being reached along the segments of
  the path and intermediate structures being created as needed: the include key is
  removed at the mount point, and the data is attached there under the alias. Which
  alias an include key stands for the spec does not say; \<open>alias\<close> is the alias of the
  include key at hand.\<close>

definition aliasWithoutType :: "string \<Rightarrow> jsval \<Rightarrow> jsval \<Rightarrow> string list \<Rightarrow> string \<Rightarrow> error + jsval" where
  "aliasWithoutType alias fileContent includeData mountPointPath includeKey =
     bindE (removeAt fileContent mountPointPath includeKey)
       (\<lambda>d. attachAt d (mountPointPath @ [alias]) includeData)"


text \<open>What the resolver imports and the sources do not contain: \<^verbatim>\<open>getObjectValue\<close>, the
  lookup \<^verbatim>\<open>store.data.get\<close> of the store it is built against, the query runner, the four
  mounting strategies of the static pass, and the alias of an include key for a type
  tag. A strategy receives the document, the resolved data, the mount point path and the
  include key, and returns the document as it has mutated it; a strategy and the query
  runner can throw.\<close>

record resolver =
  getObjectValue :: "jsval \<Rightarrow> string \<Rightarrow> jsval"
  storeLookup :: "jsval \<Rightarrow> jsval"
  queryRun :: "string \<Rightarrow> jsval \<Rightarrow> error + jsval"
  mount :: "strategy \<Rightarrow> jsval \<Rightarrow> jsval \<Rightarrow> string list \<Rightarrow> string \<Rightarrow> error + jsval"
  aliasOf :: "string \<Rightarrow> string \<Rightarrow> string"

text \<open>The state of a pass over one document: the document, and the strategies invoked so
  far, each with the include key it was invoked for. The alias strategy is invoked with
  the type tag \<^verbatim>\<open>query\<close>.\<close>

record pass =
  document :: jsval
  invoked :: "(strategy \<times> string) list"

definition strategyOf ::
  "resolver \<Rightarrow> strategy \<Rightarrow> jsval \<Rightarrow> jsval \<Rightarrow> string list \<Rightarrow> string \<Rightarrow> error + jsval" where
  "strategyOf rs st fileContent includeData mountPointPath includeKey =
     (case st of
        QueryAlias \<Rightarrow>
          aliasWithoutType (aliasOf rs ''query'' includeKey) fileContent includeData
            mountPointPath includeKey
      | other \<Rightarrow> mount rs st fileContent includeData mountPointPath includeKey)"

definition invoke ::
  "resolver \<Rightarrow> strategy \<Rightarrow> jsval \<Rightarrow> string list \<Rightarrow> string \<Rightarrow> pass \<Rightarrow> error + pass" where
  "invoke rs st includeData mountPointPath includeKey p =
     bindE (strategyOf rs st (document p) includeData mountPointPath includeKey)
       (\<lambda>d. Inr \<lparr> document = d, invoked = invoked p @ [(st, includeKey)] \<rparr>)"

text \<open>One of the four \<^verbatim>\<open>if\<close> statements of the static pass.\<close>

definition whenSuffix ::
  "resolver \<Rightarrow> string \<Rightarrow> strategy \<Rightarrow> jsval \<Rightarrow> string list \<Rightarrow> string \<Rightarrow> pass \<Rightarrow> error + pass" where
  "whenSuffix rs ending st includeData mountPointPath includeKey p =
     (if endsWith (toLowerCase includeKey) ending
      then invoke rs st includeData mountPointPath includeKey p
      else Inr p)"

text \<open>The body of the \<^verbatim>\<open>forEach\<close> of \<^verbatim>\<open>includeParser.static.run\<close> for one include path.
  \<^verbatim>\<open>mountPointPath.pop()\<close> takes the last segment off; \<^verbatim>\<open>split\<close> never returns an empty
  array, so the first case below does not arise.\<close>

definition staticInclude :: "resolver \<Rightarrow> string \<Rightarrow> pass \<Rightarrow> error + pass" where
  "staticInclude rs includePath p =
     (let includePathValue = getObjectValue rs (document p) includePath;
          includeData = storeLookup rs includePathValue
      in (case rev (split_on CHR ''.'' includePath) of
            [] \<Rightarrow> Inr p
          | includeKey # revMount \<Rightarrow>
              (let mountPointPath = rev revMount
               in if includeKey \<noteq> [] then
                    bindE (whenSuffix rs ''configinclude'' ConfigInclude includeData mountPointPath includeKey p)
                      (\<lambda>p1.
                    bindE (whenSuffix rs ''entityinclude'' EntityInclude includeData mountPointPath includeKey p1)
                      (\<lambda>p2.
                    bindE (whenSuffix rs ''custominclude'' CustomInclude includeData mountPointPath includeKey p2)
                      (\<lambda>p3.
                    whenSuffix rs ''localeinclude'' LocaleInclude includeData mountPointPath includeKey p3)))
                  else Inr p)))"

text \<open>\<^verbatim>\<open>jsonData.metadata?.includes\<close>, and the \<^verbatim>\<open>forEach\<close> over it. Only an array has
  \<^verbatim>\<open>forEach\<close>, and only a string has \<^verbatim>\<open>toLowerCase\<close> and \<^verbatim>\<open>split\<close>: on another value the call
  throws, unless an own property of that name is there (\<open>elementString\<close> is the string, or
  what the first of these calls does). \<^verbatim>\<open>forEach\<close> passes over a hole of the array but not
  over an element \<^verbatim>\<open>undefined\<close>, which the model does not tell apart.\<close>

definition includesOf :: "jsval \<Rightarrow> error + jsval" where
  "includesOf fileContent = bindE (getProp fileContent ''metadata'') (\<lambda>m. optProp m ''includes'')"

fun elementString :: "jsval \<Rightarrow> error + string" where
  "elementString (Str s) = Inr s"
| "elementString Undefined = Inl Unmodelled"
| "elementString (Obj ps) =
     (if map_of ps ''split'' = None \<and> map_of ps ''toLowerCase'' = None then Inl TypeError
      else Inl Unmodelled)"
| "elementString (Arr xs ps) =
     (if map_of ps ''split'' = None \<and> map_of ps ''toLowerCase'' = None then Inl TypeError
      else Inl Unmodelled)"
| "elementString (Ref a) = Inl Unmodelled"
| "elementString v = Inl TypeError"

fun forEachInclude :: "(string \<Rightarrow> pass \<Rightarrow> error + pass) \<Rightarrow> jsval list \<Rightarrow> pass \<Rightarrow> error + pass" where
  "forEachInclude body [] p = Inr p"
| "forEachInclude body (v # rest) p =
     bindE (elementString v) (\<lambda>includePath.
     bindE (body includePath p) (forEachInclude body rest))"

definition runPass :: "(string \<Rightarrow> pass \<Rightarrow> error + pass) \<Rightarrow> jsval \<Rightarrow> error + pass" where
  "runPass body fileContent =
     (let p = \<lparr> document = fileContent, invoked = [] \<rparr>
      in if truthy fileContent then
           bindE (includesOf fileContent) (\<lambda>includes.
             if truthy includes then
               bindE (methodOf includes ''forEach'')
                 (\<lambda>u. case includes of Arr xs ps \<Rightarrow> forEachInclude body xs p | v \<Rightarrow> Inl TypeError)
             else Inr p)
         else Inr p)"

text \<open>The four suffixes the static pass tests for.\<close>

definition staticSuffixes :: "string list" where
  "staticSuffixes = [''configinclude'', ''entityinclude'', ''custominclude'', ''localeinclude'']"

definition staticRun :: "resolver \<Rightarrow> jsval \<Rightarrow> error + pass" where
  "staticRun rs fileContent = runPass (staticInclude rs) fileContent"

subsection \<open>Query strings\<close>
















text \<open>A resolver for the examples: the referenced value is looked up in the document
  along the dotted path, the runner returns its arguments, every mounting strategy of
  the static pass replaces the include key at the top of the document by the resolved
  data, and the alias of a key is the key without its last seven characters. And two
  documents, the first with a parameter named \<^verbatim>\<open>__proto__\<close>.\<close>

definition exampleResolver :: resolver where
  "exampleResolver =
     \<lparr> getObjectValue = (\<lambda>d path. foldl andProp d (split_on CHR ''.'' path)),
       storeLookup = (\<lambda>v. Null),
       queryRun = (\<lambda>queryId args. Inr (Obj [(''id'', Str queryId), (''args'', args)])),
       mount = (\<lambda>st d includeData mountPointPath includeKey.
                  bindE (deleteProp d includeKey) (\<lambda>d1. setProp d1 ''mounted'' includeData)),
       aliasOf = (\<lambda>tag includeKey. take (length includeKey - 7) includeKey) \<rparr>"


definition exampleDocument :: jsval where
  "exampleDocument =
     Obj [(''queryInclude'', Str ''relatedArticles?tag=foo&tag=bar''),
          (''title'', Str ''t''),
          (''metadata'', Obj [(''includes'', Arr [Str ''queryInclude'', Str ''title''] [])])]"

section \<open>Properties of the store\<close>

subsection \<open>Property reads and writes on directories\<close>

lemma deepClone_skeleton: "deepClone storeDataSkeleton = storeDataSkeleton"
  by (simp add: storeDataSkeleton_def)

lemma isObj_conv: "isObj v = (\<exists>ps. v = Obj ps)" by (cases v) auto

lemma isArr_conv: "isArr v = (\<exists>xs ps. v = Arr xs ps)" by (cases v) auto

lemma isList_conv: "isList v = (\<exists>xs. v = Arr xs [])" by (cases v) auto

lemma plain_consts [simp]:
  "plainName JSON_ITEMS" "plainName MAIN" "plainName VARIANTS" "plainName FILENAME"
  by (simp_all add: plainName_def objectPrototypeNames_def JSON_ITEMS_def MAIN_def VARIANTS_def
      FILENAME_def)

lemma names_distinct [simp]:
  "MAIN \<noteq> VARIANTS" "VARIANTS \<noteq> MAIN" "JSON_ITEMS \<noteq> MAIN" "MAIN \<noteq> JSON_ITEMS"
  "JSON_ITEMS \<noteq> VARIANTS" "VARIANTS \<noteq> JSON_ITEMS"
  by (simp_all add: JSON_ITEMS_def MAIN_def VARIANTS_def)

lemma getProp_Obj: "plainName k \<Longrightarrow> getProp (Obj ps) k = Inr (propOf (Obj ps) k)"
  by (cases "map_of ps k") (auto simp: getProp_def)

lemma optProp_Obj: "plainName k \<Longrightarrow> optProp (Obj ps) k = Inr (propOf (Obj ps) k)"
  by (simp add: optProp_def getProp_Obj)

lemma getProp_Arr_length: "getProp (Arr xs ps) ''length'' = Inr (Num (int (length xs)))"
  by (simp add: getProp_def arrayIndex_def isDigit_def)

lemma optProp_Undefined [simp]: "optProp Undefined k = Inr Undefined"
  by (simp add: optProp_def)

lemma setProp_Obj: "plainName k \<Longrightarrow> setProp (Obj ps) k x = Inr (Obj (AList.update k x ps))"
  by (auto simp: setNamed_def bindE_def plainName_def objectPrototypeNames_def)

declare setProp.simps [simp del]

lemma writeBack_Obj:
  "map_of ps k \<noteq> None \<Longrightarrow> writeBack (Obj ps) k x = Obj (AList.update k x ps)"
  by auto

lemma push_list: "push (Arr xs []) x = Inr (Arr (xs @ [x]) [])"
  by (simp add: push_def bindE_def)

lemma spliceFile_list:
  "spliceFile h file (Arr xs []) = Inr (Arr (splice1 (findIndex (hasFilename h file) xs) xs) [])"
  by (simp add: spliceFile_def bindE_def)

lemma list_all_update:
  "list_all P ps \<Longrightarrow> P (k, v) \<Longrightarrow> list_all P (AList.update k v ps)"
  by (induction ps) auto

lemma list_all_delete: "list_all P ps \<Longrightarrow> list_all P (AList.delete k ps)"
  by (induction ps) auto

lemma propOf_Obj_update:
  "propOf (Obj (AList.update k v ps)) k' = (if k' = k then v else propOf (Obj ps) k')"
  by (simp add: update_conv')

lemma propOf_Obj_delete:
  "propOf (Obj (AList.delete k ps)) k' = (if k' = k then Undefined else propOf (Obj ps) k')"
  by (simp add: delete_conv')

lemma groupsOk_prop: "groupsOk vars \<Longrightarrow> truthy (propOf vars k) \<Longrightarrow> isList (propOf vars k)"
proof (cases vars)
  case (Obj vps)
  assume g: "groupsOk vars" and t: "truthy (propOf vars k)"
  from t Obj obtain g' where m: "map_of vps k = Some g'" by (auto split: option.splits)
  then have "(k, g') \<in> set vps" by (rule map_of_SomeD)
  with g Obj have "isList g'" by (auto simp: list_all_iff)
  with m Obj show ?thesis by simp
qed auto

lemma truthy_own: "truthy (propOf (Obj ps) k) \<Longrightarrow> map_of ps k \<noteq> None"
  by (auto split: option.splits)

lemma isDir_parts:
  assumes "isDir leaf"
  obtains ps ips xs vps where "leaf = Obj ps" "map_of ps JSON_ITEMS = Some (Obj ips)"
    "map_of ips MAIN = Some (Arr xs [])" "map_of ips VARIANTS = Some (Obj vps)"
    "list_all (\<lambda>kv. isList (snd kv)) vps"
proof -
  from assms obtain ps where leaf: "leaf = Obj ps" and io: "indexOk (propOf (Obj ps) JSON_ITEMS)"
    by (auto simp: isDir_def isObj_conv)
  from io obtain ips where items: "propOf (Obj ps) JSON_ITEMS = Obj ips"
    and m: "isList (propOf (Obj ips) MAIN)" and g: "groupsOk (propOf (Obj ips) VARIANTS)"
    by (auto simp: indexOk_def isObj_conv)
  from items have i1: "map_of ps JSON_ITEMS = Some (Obj ips)" by (auto split: option.splits)
  from m obtain xs where "propOf (Obj ips) MAIN = Arr xs []" by (auto simp: isList_conv)
  then have i2: "map_of ips MAIN = Some (Arr xs [])" by (auto split: option.splits)
  from g obtain vps where vv: "propOf (Obj ips) VARIANTS = Obj vps"
    and ga: "list_all (\<lambda>kv. isList (snd kv)) vps"
    by (cases "propOf (Obj ips) VARIANTS") auto
  from vv have i3: "map_of ips VARIANTS = Some (Obj vps)" by (auto split: option.splits)
  from that[OF leaf i1 i2 i3 ga] show thesis .
qed

lemma isDir_truthy: "isDir n \<Longrightarrow> truthy n"
  by (auto simp: isDir_def isObj_conv)

lemma isDir_skeleton: "isDir storeDataSkeleton"
  by (simp add: isDir_def indexOk_def storeDataSkeleton_def JSON_ITEMS_def MAIN_def VARIANTS_def)

lemma skeleton_prop: "k \<noteq> JSON_ITEMS \<Longrightarrow> propOf storeDataSkeleton k = Undefined"
  by (simp add: storeDataSkeleton_def)

lemma indexIs_frame:
  "indexIs a M G \<Longrightarrow> isDir b \<Longrightarrow> propOf b JSON_ITEMS = propOf a JSON_ITEMS \<Longrightarrow> indexIs b M G"
  by (simp add: indexIs_def mainVal_def groupVal_def)

lemma indexIs_skeleton: "indexIs storeDataSkeleton [] (\<lambda>v. [])"
  using isDir_skeleton
  by (simp add: indexIs_def mainVal_def groupVal_def groupShown_def)
     (simp add: storeDataSkeleton_def JSON_ITEMS_def MAIN_def VARIANTS_def)

lemma addFileToJsonItems_dir:
  assumes "isDir leaf" "plainVariant env file"
  shows "\<exists>leaf'. addFileToJsonItems env leaf file j = Inr leaf' \<and> isDir leaf'
           \<and> (\<forall>k. k \<noteq> JSON_ITEMS \<longrightarrow> propOf leaf' k = propOf leaf k)"
proof -
  from assms(1) obtain ps ips xs vps where p: "leaf = Obj ps" "map_of ps JSON_ITEMS = Some (Obj ips)"
    "map_of ips MAIN = Some (Arr xs [])" "map_of ips VARIANTS = Some (Obj vps)"
    and ga: "list_all (\<lambda>kv. isList (snd kv)) vps"
    by (rule isDir_parts)
  show ?thesis
  proof (cases "truthy j")
    case False
    then show ?thesis using assms by (simp add: addFileToJsonItems_def)
  next
    case True
    show ?thesis
    proof (cases "variantOf env file")
      case None
      then show ?thesis using True p ga
        by (simp add: addFileToJsonItems_def bindE_def getProp_Obj push_list isDir_def indexOk_def
            update_conv')
    next
      case (Some v)
      then have pv: "plainName v" using assms(2) by (simp add: plainVariant_def)
      show ?thesis
      proof (cases "map_of vps v")
        case None
        then show ?thesis using True Some p ga pv
          by (simp add: addFileToJsonItems_def bindE_def getProp_Obj setProp_Obj push_list isDir_def
              indexOk_def update_conv' list_all_update)
      next
        case (Some g)
        then have "(v, g) \<in> set vps" by (rule map_of_SomeD)
        with ga have "isList g" by (auto simp: list_all_iff)
        then obtain ys where g: "g = Arr ys []" by (auto simp: isList_conv)
        show ?thesis using True \<open>variantOf env file = Some v\<close> Some g p ga pv
          by (simp add: addFileToJsonItems_def bindE_def getProp_Obj setProp_Obj push_list isDir_def
              indexOk_def update_conv' list_all_update)
      qed
    qed
  qed
qed

lemma arr_length: "(propOf (Arr xs ps) ''length'' = Num 0) = (xs = [])"
  by (simp add: arrayIndex_def isDigit_def)

lemma removeFileFromJsonItems_dir:
  assumes "isDir leaf" "plainVariant env file"
  shows "\<exists>leaf'. removeFileFromJsonItems env h leaf file = Inr leaf' \<and> isDir leaf'
           \<and> (\<forall>k. k \<noteq> JSON_ITEMS \<longrightarrow> propOf leaf' k = propOf leaf k)"
proof -
  from assms(1) obtain ps ips xs vps where p: "leaf = Obj ps" "map_of ps JSON_ITEMS = Some (Obj ips)"
    "map_of ips MAIN = Some (Arr xs [])" "map_of ips VARIANTS = Some (Obj vps)"
    and ga: "list_all (\<lambda>kv. isList (snd kv)) vps"
    by (rule isDir_parts)
  show ?thesis
  proof (cases "variantOf env file")
    case None
    then show ?thesis using p ga
      by (simp add: removeFileFromJsonItems_def bindE_def optProp_Obj spliceFile_list isDir_def
          indexOk_def update_conv')
  next
    case (Some v)
    then have pv: "plainName v" using assms(2) by (simp add: plainVariant_def)
    show ?thesis
    proof (cases "map_of vps v")
      case None
      then show ?thesis using Some p ga pv assms(1)
        by (simp add: removeFileFromJsonItems_def bindE_def optProp_Obj)
    next
      case g: (Some g)
      then have "(v, g) \<in> set vps" by (rule map_of_SomeD)
      with ga have "isList g" by (auto simp: list_all_iff)
      then obtain ys where gy: "g = Arr ys []" by (auto simp: isList_conv)
      show ?thesis using Some g gy p ga pv
        by (simp add: removeFileFromJsonItems_def bindE_def optProp_Obj spliceFile_list isDir_def
            indexOk_def update_conv' delete_conv' list_all_update
            list_all_delete arr_length)
    qed
  qed
qed

declare writeBack.simps [simp del]

lemma dirsAlong_skeleton: "JSON_ITEMS \<notin> set parts \<Longrightarrow> dirsAlong storeDataSkeleton parts"
  by (cases "(storeDataSkeleton, parts)" rule: dirsAlong.cases)
     (auto simp: isDir_skeleton skeleton_prop)

lemma dirsPresent_isDir: "parts \<noteq> [] \<Longrightarrow> dirsPresent leaf parts \<Longrightarrow> isDir leaf"
  by (cases "(leaf, parts)" rule: dirsPresent.cases) auto

lemma dirsAlong_isDir: "parts \<noteq> [] \<Longrightarrow> dirsAlong leaf parts \<Longrightarrow> isDir leaf"
  by (cases "(leaf, parts)" rule: dirsAlong.cases) auto


lemma dirsAlong_frame:
  assumes "isDir a" "isDir b" "\<forall>k. k \<noteq> JSON_ITEMS \<longrightarrow> propOf a k = propOf b k"
    "JSON_ITEMS \<notin> set parts"
  shows "dirsAlong a parts = dirsAlong b parts"
  using assms by (cases "(a, parts)" rule: dirsAlong.cases) auto

lemma dirsPresent_frame:
  assumes "isDir a" "isDir b" "\<forall>k. k \<noteq> JSON_ITEMS \<longrightarrow> propOf a k = propOf b k"
    "JSON_ITEMS \<notin> set parts"
  shows "dirsPresent a parts = dirsPresent b parts"
  using assms by (cases "(a, parts)" rule: dirsPresent.cases) auto

lemma walk_frame:
  assumes "isDir a" "isDir b" "\<forall>k. k \<noteq> JSON_ITEMS \<longrightarrow> propOf a k = propOf b k"
    "JSON_ITEMS \<notin> set parts" "parts \<noteq> []"
  shows "foldl andProp a parts = foldl andProp b parts"
  using assms by (cases parts) (auto simp: andProp_def isDir_truthy)

lemma getProp_dir: "isDir leaf \<Longrightarrow> plainName k \<Longrightarrow> getProp leaf k = Inr (propOf leaf k)"
  by (auto simp: isDir_def isObj_conv getProp_Obj simp del: propOf.simps)

lemma deref_dir [simp]: "isDir leaf \<Longrightarrow> deref h leaf = leaf"
  by (auto simp: isDir_def isObj_conv deref_def)

text \<open>On a path of plain names whose directories are present, \<^verbatim>\<open>get\<close> reads own
  properties all the way.\<close>

lemma getWalk_dirs:
  "dirsPresent root parts \<Longrightarrow> list_all plainName parts
     \<Longrightarrow> getWalk h root parts = Inr (foldl andProp root parts)"
proof (induction root parts rule: dirsPresent.induct)
  case (1 leaf)
  then show ?case by simp
next
  case (2 leaf part)
  then show ?case
    by (simp add: getProp_dir isDir_truthy bindE_def andProp_def del: propOf.simps)
next
  case (3 leaf part p2 rest)
  then show ?case
    by (simp add: getProp_dir isDir_truthy bindE_def andProp_def del: propOf.simps)
qed

lemma isDir_setProp:
  assumes "isDir leaf" "k \<noteq> JSON_ITEMS" "plainName k"
  shows "\<exists>ps. setProp leaf k x = Inr (Obj ps) \<and> isDir (Obj ps)
           \<and> propOf (Obj ps) k = x \<and> propOf (Obj ps) JSON_ITEMS = propOf leaf JSON_ITEMS
           \<and> (\<forall>k'. k' \<noteq> k \<longrightarrow> propOf (Obj ps) k' = propOf leaf k')"
  using assms by (auto simp: isDir_def isObj_conv propOf_Obj_update setProp_Obj simp del: propOf.simps)

lemma isDir_writeBack:
  assumes "isDir leaf" "k \<noteq> JSON_ITEMS" "truthy (propOf leaf k)"
  shows "\<exists>ps. writeBack leaf k x = Obj ps \<and> isDir (Obj ps)
           \<and> propOf (Obj ps) k = x \<and> propOf (Obj ps) JSON_ITEMS = propOf leaf JSON_ITEMS
           \<and> (\<forall>k'. k' \<noteq> k \<longrightarrow> propOf (Obj ps) k' = propOf leaf k')"
proof -
  from assms(1) obtain qs where l: "leaf = Obj qs" by (auto simp: isDir_def isObj_conv)
  with assms(3) have "map_of qs k \<noteq> None" by (auto split: option.splits)
  then have "writeBack leaf k x = Obj (AList.update k x qs)" using l by (simp add: writeBack_Obj)
  then show ?thesis
    using assms(1,2) l
    by (auto simp: isDir_def propOf_Obj_update simp del: propOf.simps)
qed

lemma isDir_deleteProp:
  assumes "isDir leaf" "k \<noteq> JSON_ITEMS"
  shows "\<exists>ps. deleteProp leaf k = Inr (Obj ps) \<and> isDir (Obj ps)
           \<and> propOf (Obj ps) k = Undefined \<and> propOf (Obj ps) JSON_ITEMS = propOf leaf JSON_ITEMS
           \<and> (\<forall>k'. k' \<noteq> k \<longrightarrow> propOf (Obj ps) k' = propOf leaf k')"
  using assms by (auto simp: isDir_def isObj_conv propOf_Obj_delete simp del: propOf.simps)

lemma addWalk_ok:
  assumes "dirsAlong leaf parts" "parts \<noteq> []" "JSON_ITEMS \<notin> set parts"
    "list_all plainName parts" "plainVariant env file"
  shows "\<exists>leaf'. addWalk env file content j leaf parts = Inr leaf' \<and> isDir leaf'
           \<and> dirsPresent leaf' parts \<and> foldl andProp leaf' parts = content
           \<and> propOf leaf' JSON_ITEMS = propOf leaf JSON_ITEMS"
  using assms(1,2,3,4)
proof (induction parts arbitrary: leaf)
  case Nil
  then show ?case by simp
next
  case (Cons part rest)
  from Cons.prems have dir: "isDir leaf" and pk: "part \<noteq> JSON_ITEMS" and pp: "plainName part"
    using dirsAlong_isDir[of "part # rest" leaf] by auto
  show ?case
  proof (cases rest)
    case Nil
    from isDir_setProp[OF dir pk pp, of content] obtain ps where
      "setProp leaf part content = Inr (Obj ps)" "isDir (Obj ps)" "propOf (Obj ps) part = content"
      "propOf (Obj ps) JSON_ITEMS = propOf leaf JSON_ITEMS" by blast
    with Nil show ?thesis by (simp add: andProp_def del: propOf.simps)
  next
    case (Cons p2 rest')
    define cur where "cur = propOf leaf part"
    define child where "child = (if truthy cur then cur else storeDataSkeleton)"
    have rest_ok: "rest \<noteq> []" "JSON_ITEMS \<notin> set rest" "list_all plainName rest"
      using Cons Cons.prems by auto
    have child_along: "dirsAlong child rest"
      using Cons Cons.prems(1) rest_ok by (auto simp: child_def cur_def dirsAlong_skeleton)
    then have child_dir: "isDir child" using rest_ok dirsAlong_isDir[of rest child] by auto
    from isDir_setProp[OF dir pk pp, of storeDataSkeleton] obtain qs where
      qs: "setProp leaf part storeDataSkeleton = Inr (Obj qs)" "propOf (Obj qs) part = storeDataSkeleton"
      "isDir (Obj qs)" "propOf (Obj qs) JSON_ITEMS = propOf leaf JSON_ITEMS"
      by blast
    define leaf1 where "leaf1 = (if truthy cur then leaf else Obj qs)"
    have leaf1_dir: "isDir leaf1" using dir qs by (simp add: leaf1_def)
    have leaf1_child: "propOf leaf1 part = child"
      using qs by (simp add: leaf1_def child_def cur_def del: propOf.simps)
    have leaf1_items: "propOf leaf1 JSON_ITEMS = propOf leaf JSON_ITEMS"
      using qs(4) by (auto simp: leaf1_def simp del: propOf.simps)
    from addFileToJsonItems_dir[OF child_dir assms(5), of j] obtain child1 where
      c1: "addFileToJsonItems env child file j = Inr child1" "isDir child1"
      "\<forall>k. k \<noteq> JSON_ITEMS \<longrightarrow> propOf child1 k = propOf child k" by blast
    have "dirsAlong child1 rest"
      using dirsAlong_frame[OF c1(2) child_dir c1(3) rest_ok(2)] child_along by simp
    from Cons.IH[OF this rest_ok] obtain child2 where
      c2: "addWalk env file content j child1 rest = Inr child2" "isDir child2"
      "dirsPresent child2 rest" "foldl andProp child2 rest = content" by blast
    have tc: "truthy (propOf leaf1 part)" using leaf1_child child_dir by (simp add: isDir_truthy)
    from isDir_writeBack[OF leaf1_dir pk tc, of child2] obtain rs where
      rs: "writeBack leaf1 part child2 = Obj rs" "isDir (Obj rs)" "propOf (Obj rs) part = child2"
      "propOf (Obj rs) JSON_ITEMS = propOf leaf1 JSON_ITEMS" by blast
    have g0: "getProp leaf part = Inr cur" using dir pp by (simp add: getProp_dir cur_def)
    have g1: "getProp leaf1 part = Inr child" using leaf1_dir pp leaf1_child by (simp add: getProp_dir)
    have s1: "(if \<not> truthy cur then setProp leaf part (deepClone storeDataSkeleton) else Inr leaf)
                = Inr leaf1"
      using qs(1) by (simp add: leaf1_def deepClone_skeleton)
    have step: "addWalk env file content j leaf (part # rest) = Inr (Obj rs)"
      unfolding Cons addWalk.simps g0 using s1 g1 c1(1) c1(2) c2(1) rs(1)
      by (simp add: bindE_def isDir_truthy Cons del: propOf.simps writeBack.simps)
    have f: "foldl andProp (Obj rs) (part # rest) = content"
      using rs(3) c2(4) by (simp add: andProp_def del: propOf.simps)
    have p: "dirsPresent (Obj rs) (part # rest)"
      using rs(2,3) c2(3) Cons by (simp del: propOf.simps)
    show ?thesis
      using step f p rs(2) rs(4) leaf1_items by (simp del: propOf.simps foldl_Cons)
  qed
qed

lemma removeWalk_ok:
  assumes "dirsPresent leaf parts" "parts \<noteq> []" "JSON_ITEMS \<notin> set parts"
    "list_all plainName parts" "plainVariant env file"
  shows "\<exists>leaf'. removeWalk env h file leaf parts = Inr leaf' \<and> isDir leaf'
           \<and> dirsPresent leaf' parts \<and> foldl andProp leaf' parts = Undefined
           \<and> propOf leaf' JSON_ITEMS = propOf leaf JSON_ITEMS"
  using assms(1,2,3,4)
proof (induction parts arbitrary: leaf)
  case Nil
  then show ?case by simp
next
  case (Cons part rest)
  from Cons.prems have dir: "isDir leaf" and pk: "part \<noteq> JSON_ITEMS" and pp: "plainName part"
    using dirsPresent_isDir[of "part # rest" leaf] by auto
  show ?case
  proof (cases rest)
    case Nil
    from isDir_deleteProp[OF dir pk] obtain ps where
      "deleteProp leaf part = Inr (Obj ps)" "isDir (Obj ps)" "propOf (Obj ps) part = Undefined"
      "propOf (Obj ps) JSON_ITEMS = propOf leaf JSON_ITEMS" by blast
    with Nil show ?thesis by (simp add: andProp_def del: propOf.simps)
  next
    case (Cons p2 rest')
    define child where "child = propOf leaf part"
    have rest_ok: "rest \<noteq> []" "JSON_ITEMS \<notin> set rest" "list_all plainName rest"
      using Cons Cons.prems by auto
    have child_pres: "dirsPresent child rest"
      using Cons Cons.prems(1) by (simp add: child_def del: propOf.simps)
    then have child_dir: "isDir child" using rest_ok dirsPresent_isDir[of rest child] by auto
    from removeFileFromJsonItems_dir[OF child_dir assms(5), of h] obtain child1 where
      c1: "removeFileFromJsonItems env h child file = Inr child1" "isDir child1"
      "\<forall>k. k \<noteq> JSON_ITEMS \<longrightarrow> propOf child1 k = propOf child k" by blast
    have "dirsPresent child1 rest"
      using dirsPresent_frame[OF c1(2) child_dir c1(3) rest_ok(2)] child_pres by simp
    from Cons.IH[OF this rest_ok] obtain child2 where
      c2: "removeWalk env h file child1 rest = Inr child2" "isDir child2"
      "dirsPresent child2 rest" "foldl andProp child2 rest = Undefined" by blast
    have tc: "truthy (propOf leaf part)" using child_dir by (simp add: child_def isDir_truthy)
    from isDir_writeBack[OF dir pk tc, of child2] obtain rs where
      rs: "writeBack leaf part child2 = Obj rs" "isDir (Obj rs)" "propOf (Obj rs) part = child2"
      "propOf (Obj rs) JSON_ITEMS = propOf leaf JSON_ITEMS" by blast
    have g0: "getProp leaf part = Inr child" using dir pp by (simp add: getProp_dir child_def)
    have step: "removeWalk env h file leaf (part # rest) = Inr (Obj rs)"
      unfolding Cons removeWalk.simps g0 using c1(1) c1(2) c2(1) rs(1)
      by (simp add: bindE_def isDir_truthy Cons del: propOf.simps writeBack.simps)
    have f: "foldl andProp (Obj rs) (part # rest) = Undefined"
      using rs(3) c2(4) by (simp add: andProp_def del: propOf.simps)
    have p: "dirsPresent (Obj rs) (part # rest)"
      using rs(2,3) c2(3) Cons by (simp del: propOf.simps)
    show ?thesis
      using step f p rs(2) rs(4) by (simp del: propOf.simps foldl_Cons)
  qed
qed

lemma split_on_nonempty: "split_on c s \<noteq> []"
  by (induction s) (auto split: list.splits)

subsection \<open>Reading the contents of a file\<close>

lemma plain_file [simp]: "plainName ''file''"
  by (simp add: plainName_def objectPrototypeNames_def)

lemma plain_not_proto: "plainName k \<Longrightarrow> k \<noteq> ''__proto__''"
  by (auto simp: plainName_def objectPrototypeNames_def)

lemma cache_set_get:
  assumes "plainName key"
  shows "\<exists>c. cache_set d ''file'' key v = Inr c \<and> cache_get c ''file'' key = Inr (Some v)"
proof (cases "map_of d ''file''")
  case None
  then show ?thesis using assms plain_not_proto[OF assms]
    by (simp add: cache_set_def cache_get_def update_conv' Let_def)
next
  case (Some b)
  then show ?thesis using assms plain_not_proto[OF assms]
    by (simp add: cache_set_def cache_get_def update_conv' Let_def)
qed

lemma cache_get_plain:
  assumes "plainName key"
  shows "cache_get d ''file'' key = Inr None \<or> (\<exists>v. cache_get d ''file'' key = Inr (Some v))"
  using assms by (auto simp: cache_get_def split: option.splits)

lemma intern_plain: "\<not> indexable v \<Longrightarrow> intern v h = (v, h)"
  by (simp add: intern_def)

lemma intern_object: "indexable v \<Longrightarrow> intern v h = (Ref (length h), h @ [v])"
  by (simp add: intern_def)

lemma indexable_Ref [simp]: "\<not> indexable (Ref a)"
  by (simp add: indexable_def)

lemma indexable_truthy: "indexable j \<Longrightarrow> truthy j"
  by (auto simp: indexable_def isObj_conv isArr_conv)

lemma indexable_withFilename [simp]: "indexable (withFilename j file) = indexable j"
  by (cases j) (auto simp: indexable_def)

lemma truthy_withFilename [simp]: "truthy (withFilename j file) = truthy j"
  by (cases j) auto

lemma withFilename_plain: "\<not> indexable j \<Longrightarrow> withFilename j file = j"
  by (cases j) (auto simp: indexable_def)

lemma writeFilename_data:
  "isData j \<Longrightarrow> \<not> indexable j \<Longrightarrow> writeFilename j file h = Inr h"
  by (cases j) (auto simp: indexable_def)

text \<open>What \<open>fetch\<close> hands over when the file is read: the heap grows by the objects of the
  file, what was on it stays, and the stored value holds the document.\<close>

lemma fetch_fresh:
  assumes np: "getPostProcessor env = None"
    and pn: "plainName (pathJoin env dataDir file)"
    and nc: "useCache opts \<longrightarrow> cache_get (cache s) ''file'' (pathJoin env dataDir file) = Inr None"
    and dj: "isData (json (getFileContents env (pathJoin env dataDir file)))"
    and dr: "isData (raw (getFileContents env (pathJoin env dataDir file)))"
  shows "\<exists>c h r j. fetch env dataDir file opts s = Inr (r, j, s\<lparr>cache := c, heap := h\<rparr>)
           \<and> length (heap s) \<le> length h \<and> (\<forall>a < length (heap s). h ! a = heap s ! a)
           \<and> truthy j = truthy (json (getFileContents env (pathJoin env dataDir file)))
           \<and> holds h j (insertedJson (getFileContents env (pathJoin env dataDir file)) file)
           \<and> holds h (if truthy j then j else r)
                (documentOf (getFileContents env (pathJoin env dataDir file)) file)"
proof -
  define fp where "fp = pathJoin env dataDir file"
  define J where "J = json (getFileContents env fp)"
  define R where "R = raw (getFileContents env fp)"
  define H where "H = heap s"
  define jh where "jh = intern J H"
  define rh where "rh = intern R (snd jh)"
  have dJ: "isData J" and dR: "isData R" using dj dr by (simp_all add: J_def R_def fp_def)
  from cache_set_get[OF pn, of "cache s" "\<lparr> raw = fst rh, json = fst jh \<rparr>"] obtain c where
    c: "cache_set (cache s) ''file'' fp \<lparr> raw = fst rh, json = fst jh \<rparr> = Inr c"
       "cache_get c ''file'' fp = Inr (Some \<lparr> raw = fst rh, json = fst jh \<rparr>)"
    by (auto simp: fp_def)
  have rf: "readFile env fp s = Inr (s\<lparr>cache := c, heap := snd rh\<rparr>)"
    using dJ dR c(1)
    by (simp add: readFile_def Let_def bindE_def J_def R_def H_def jh_def rh_def)
  have hit: "(if useCache opts then cache_get (cache s) ''file'' fp else Inr None) = Inr None"
    using nc by (simp add: fp_def)
  have pf: "runProcessFile env dataDir file x y t = Inr (x, y)" for x y t
    using np by (simp add: runProcessFile_def)
  have nj: "\<not> indexable (fst jh)" by (simp add: jh_def intern_def)
  have nr: "\<not> indexable (fst rh)" by (simp add: rh_def intern_def)
  have i1: "intern (fst jh) (snd rh) = (fst jh, snd rh)" using nj by (rule intern_plain)
  have i2: "intern (fst rh) (snd rh) = (fst rh, snd rh)" using nr by (rule intern_plain)
  have f: "fetch env dataDir file opts s =
             bindE (if truthy (fst jh) then writeFilename (fst jh) file (snd rh) else Inr (snd rh))
               (\<lambda>h. Inr (fst rh, fst jh, s\<lparr>cache := c, heap := h\<rparr>))"
    unfolding fetch_def Let_def fp_def[symmetric] hit
    by (simp add: bindE_def rf c(2) pf i1 i2 split: sum.splits)
  show ?thesis
  proof (cases "indexable J")
    case True
    then have jh: "jh = (Ref (length H), H @ [J])" by (simp add: jh_def intern_object)
    have tJ: "truthy J" using True by (rule indexable_truthy)
    have len: "length H < length (snd rh)" using jh by (simp add: rh_def intern_def)
    have at: "snd rh ! length H = J" using jh by (simp add: rh_def intern_def nth_append)
    have old: "\<forall>a < length H. snd rh ! a = H ! a"
      using jh by (simp add: rh_def intern_def nth_append)
    define h where "h = (snd rh)[length H := withFilename J file]"
    have "fetch env dataDir file opts s = Inr (fst rh, Ref (length H), s\<lparr>cache := c, heap := h\<rparr>)"
      unfolding f using jh len at by (simp add: bindE_def h_def)
    moreover have "length (heap s) \<le> length h" using len by (simp add: h_def H_def)
    moreover have "\<forall>a < length (heap s). h ! a = heap s ! a"
      using old by (simp add: h_def H_def)
    moreover have "holds h (Ref (length H)) (withFilename J file)"
      using True len by (simp add: h_def)
    ultimately show ?thesis
      using tJ by (auto simp: insertedJson_def documentOf_def J_def[symmetric] fp_def[symmetric])
  next
    case False
    then have jh: "jh = (J, H)" by (simp add: jh_def intern_plain)
    have w: "writeFilename J file x = Inr x" for x
      using dJ False by (rule writeFilename_data)
    have f2: "fetch env dataDir file opts s = Inr (fst rh, J, s\<lparr>cache := c, heap := snd rh\<rparr>)"
      unfolding f using jh w by (simp add: bindE_def)
    have hj: "holds (snd rh) J (withFilename J file)"
      using False dJ by (cases J) (auto simp: indexable_def)
    have len: "length (heap s) \<le> length (snd rh)"
      using jh by (simp add: rh_def intern_def H_def)
    have old: "\<forall>a < length (heap s). snd rh ! a = heap s ! a"
      using jh by (simp add: rh_def intern_def H_def nth_append)
    have hr: "holds (snd rh) (fst rh) R"
    proof (cases "indexable R")
      case True
      then show ?thesis using jh by (simp add: rh_def intern_def)
    next
      case f: False
      then show ?thesis using jh dR by (cases R) (auto simp: rh_def intern_def indexable_def)
    qed
    show ?thesis
      using f2 hj hr len old
      by (auto simp: insertedJson_def documentOf_def J_def[symmetric] R_def[symmetric]
          fp_def[symmetric] withFilename_plain False)
  qed
qed

text \<open>What \<open>fetch\<close> hands over when the contents come from the cache: the objects of the
  entry, the parsed contents now carrying the \<^verbatim>\<open>__FILENAME__\<close> of this call.\<close>

lemma fetch_hit:
  assumes np: "getPostProcessor env = None"
    and uc: "useCache opts"
    and hit: "cache_get (cache s) ''file'' (pathJoin env dataDir file) = Inr (Some fc)"
    and sj: "storable (heap s) (json fc)" and sr: "storable (heap s) (raw fc)"
  shows "\<exists>h r j. fetch env dataDir file opts s = Inr (r, j, s\<lparr>heap := h\<rparr>)
           \<and> deref h (if truthy j then j else r)
               = documentOf \<lparr> raw = deref (heap s) (raw fc), json = deref (heap s) (json fc) \<rparr> file"
proof -
  define H where "H = heap s"
  define J where "J = json fc"
  define R where "R = raw fc"
  define jh where "jh = intern J H"
  define rh where "rh = intern R (snd jh)"
  have pf: "runProcessFile env dataDir file x y t = Inr (x, y)" for x y t
    using np by (simp add: runProcessFile_def)
  have f: "fetch env dataDir file opts s =
             bindE (if truthy (fst jh) then writeFilename (fst jh) file (snd rh) else Inr (snd rh))
               (\<lambda>h. Inr (fst rh, fst jh, s\<lparr>heap := h\<rparr>))"
    unfolding fetch_def Let_def
    using uc hit
    by (simp add: bindE_def pf jh_def rh_def J_def R_def H_def split: sum.splits)
  have sJ: "storable H J" and sR: "storable H R" using sj sr by (simp_all add: H_def J_def R_def)
  have rh_len: "length (snd jh) \<le> length (snd rh)" by (simp add: rh_def intern_def)
  have rh_old: "\<forall>a < length (snd jh). snd rh ! a = snd jh ! a"
    by (simp add: rh_def intern_def nth_append)
  have raw_shown: "deref (snd rh) (fst rh) = deref H R" if "snd jh = H"
  proof (cases "indexable R")
    case True
    then have "\<not> (\<exists>a. R = Ref a)" by (auto simp: indexable_def)
    then show ?thesis using True that by (cases R) (auto simp: rh_def intern_def deref_def)
  next
    case False
    then show ?thesis using that by (simp add: rh_def intern_def)
  qed
  show ?thesis
  proof (cases "\<exists>a. J = Ref a")
    case True
    then obtain a where a: "J = Ref a" by blast
    with sJ have v: "a < length H" "indexable (H ! a)" by simp_all
    have jh: "jh = (Ref a, H)" using a by (simp add: jh_def intern_def)
    define h where "h = (snd rh)[a := withFilename (snd rh ! a) file]"
    have la: "a < length (snd rh)" using v(1) rh_len jh by simp
    have at: "snd rh ! a = H ! a" using rh_old v(1) jh by simp
    have "fetch env dataDir file opts s = Inr (fst rh, Ref a, s\<lparr>heap := h\<rparr>)"
      unfolding f using jh la by (simp add: bindE_def h_def)
    moreover have "deref h (Ref a) = withFilename (H ! a) file"
      using la at by (simp add: deref_def h_def)
    moreover have "documentOf \<lparr> raw = deref H R, json = deref H J \<rparr> file = withFilename (H ! a) file"
      using a v indexable_truthy[OF v(2)] by (simp add: documentOf_def deref_def)
    ultimately show ?thesis by (auto simp: H_def J_def R_def)
  next
    case nr: False
    then have dJ: "deref x J = J" for x by (cases J) (auto simp: deref_def)
    show ?thesis
    proof (cases "indexable J")
      case True
      then have jh: "jh = (Ref (length H), H @ [J])" by (simp add: jh_def intern_object)
      define h where "h = (snd rh)[length H := withFilename (snd rh ! length H) file]"
      have la: "length H < length (snd rh)" using rh_len jh by simp
      have at: "snd rh ! length H = J" using rh_old jh by simp
      have "fetch env dataDir file opts s = Inr (fst rh, Ref (length H), s\<lparr>heap := h\<rparr>)"
        unfolding f using jh la by (simp add: bindE_def h_def)
      moreover have "deref h (Ref (length H)) = withFilename J file"
        using la at by (simp add: deref_def h_def)
      moreover have "documentOf \<lparr> raw = deref H R, json = deref H J \<rparr> file = withFilename J file"
        using indexable_truthy[OF True] by (simp add: documentOf_def dJ)
      ultimately show ?thesis by (auto simp: H_def J_def R_def)
    next
      case False
      then have jh: "jh = (J, H)" by (simp add: jh_def intern_plain)
      have isd: "isData J" using sJ nr by (cases J) auto
      have w: "writeFilename J file x = Inr x" for x
        using isd False by (rule writeFilename_data)
      have f2: "fetch env dataDir file opts s = Inr (fst rh, J, s\<lparr>heap := snd rh\<rparr>)"
        unfolding f using jh w by (simp add: bindE_def)
      have "deref (snd rh) (if truthy J then J else fst rh)
              = documentOf \<lparr> raw = deref H R, json = deref H J \<rparr> file"
        using raw_shown jh False by (simp add: documentOf_def dJ withFilename_plain)
      with f2 show ?thesis by (auto simp: H_def J_def R_def)
    qed
  qed
qed

lemma cached_cases:
  assumes "plainName (pathJoin env dataDir file)"
  shows "(cached env dataDir file opts s = None
            \<and> (useCache opts \<longrightarrow> cache_get (cache s) ''file'' (pathJoin env dataDir file) = Inr None))
         \<or> (\<exists>fc. cached env dataDir file opts s = Some fc \<and> useCache opts
               \<and> cache_get (cache s) ''file'' (pathJoin env dataDir file) = Inr (Some fc))"
  using cache_get_plain[OF assms, of "cache s"]
  by (auto simp: cached_def)

text \<open>With no post-processor, a plain cache key and usable contents, \<open>fetch\<close> returns; it
  leaves both trees and the log alone, and the value that is going to be stored shows
  the document.\<close>

lemma fetch_ok:
  assumes np: "getPostProcessor env = None"
    and pn: "plainName (pathJoin env dataDir file)"
    and us: "usable env dataDir file opts s"
  shows "\<exists>c h r j. fetch env dataDir file opts s = Inr (r, j, s\<lparr>cache := c, heap := h\<rparr>)
           \<and> deref h (if truthy j then j else r)
               = documentOf (bodyRead env dataDir file opts s) file"
proof -
  from cached_cases[OF pn, of opts s] show ?thesis
  proof
    assume a: "cached env dataDir file opts s = None
            \<and> (useCache opts \<longrightarrow> cache_get (cache s) ''file'' (pathJoin env dataDir file) = Inr None)"
    with us have d: "isData (json (getFileContents env (pathJoin env dataDir file)))"
      "isData (raw (getFileContents env (pathJoin env dataDir file)))"
      by (simp_all add: usable_def fileIsData_def)
    from fetch_fresh[OF np pn _ d, of opts s] a obtain c h r j where
      f: "fetch env dataDir file opts s = Inr (r, j, s\<lparr>cache := c, heap := h\<rparr>)"
      "holds h (if truthy j then j else r)
         (documentOf (getFileContents env (pathJoin env dataDir file)) file)"
      by blast
    have dh: "deref h v = d" if "holds h v d" for v d
      using that by (cases v) (auto simp: deref_def)
    have b: "bodyRead env dataDir file opts s = getFileContents env (pathJoin env dataDir file)"
      using a by (simp add: bodyRead_def)
    from dh[OF f(2)] have "deref h (if truthy j then j else r)
        = documentOf (bodyRead env dataDir file opts s) file" unfolding b .
    with f(1) show ?thesis by blast
  next
    assume "\<exists>fc. cached env dataDir file opts s = Some fc \<and> useCache opts
               \<and> cache_get (cache s) ''file'' (pathJoin env dataDir file) = Inr (Some fc)"
    then obtain fc where a: "cached env dataDir file opts s = Some fc" "useCache opts"
      "cache_get (cache s) ''file'' (pathJoin env dataDir file) = Inr (Some fc)" by blast
    with us have st: "storable (heap s) (json fc)" "storable (heap s) (raw fc)"
      by (simp_all add: usable_def)
    from fetch_hit[OF np a(2) a(3) st] obtain h r j where
      f: "fetch env dataDir file opts s = Inr (r, j, s\<lparr>heap := h\<rparr>)"
      "deref h (if truthy j then j else r)
         = documentOf \<lparr> raw = deref (heap s) (raw fc), json = deref (heap s) (json fc) \<rparr> file"
      by blast
    have e: "s\<lparr>heap := h\<rparr> = s\<lparr>cache := cache s, heap := h\<rparr>" by simp
    have b: "bodyRead env dataDir file opts s
               = \<lparr> raw = deref (heap s) (raw fc), json = deref (heap s) (json fc) \<rparr>"
      using a(1) by (simp add: bodyRead_def)
    from f(1) have "fetch env dataDir file opts s = Inr (r, j, s\<lparr>cache := cache s, heap := h\<rparr>)"
      unfolding e .
    with f(2) show ?thesis unfolding b by blast
  qed
qed

text \<open>\<^verbatim>\<open>add\<close> and \<^verbatim>\<open>remove\<close> when there is no post-processor.\<close>

lemma add_plain:
  assumes "file \<noteq> []" "JSON_ITEMS \<notin> set (split_on CHR ''/'' file)" "getPostProcessor env = None"
    and "fetch env dataDir file opts s = Inr (r, j, s1)"
  shows "add env dataDir file opts s =
           bindE (addWalk env file (if truthy j then j else r) j
                    (if useStage opts then stage s1 else data s1) (split_on CHR ''/'' file))
             (\<lambda>root1.
           bindE (addFileToJsonItems env root1 file j)
             (\<lambda>root2.
              Inr (if useStage opts then s1\<lparr>stage := root2\<rparr> else s1\<lparr>data := root2\<rparr>)))"
proof -
  have pre: "fst (meetsPathRequirements (split_on CHR ''/'' file) (logged s))"
    using assms(2) by (simp add: meetsPathRequirements_def)
  have sa: "\<And>r jj t. runStoreAdd env dataDir file r jj t = Inr t"
    using assms(3) by (simp add: runStoreAdd_def)
  show ?thesis
    unfolding add_def Let_def
    by (simp add: assms(1) pre assms(4) bindE_def sa split: sum.splits)
qed

lemma remove_plain:
  assumes "getPostProcessor env = None"
  shows "remove env file s =
           bindE (removeWalk env (heap s) file (data s) (split_on CHR ''/'' file)) (\<lambda>root1.
           bindE (removeFileFromJsonItems env (heap s) root1 file) (\<lambda>root2. Inr (s\<lparr>data := root2\<rparr>)))"
  using assms by (simp add: remove_def runStoreRemove_def)

lemma add_refused:
  assumes "file = [] \<or> JSON_ITEMS \<in> set (split_on CHR ''/'' file)"
  shows "add env dataDir file opts s =
           Inr (s\<lparr>logged := (if file = [] then logged s
                               else logged s @ [Warn (skipMessage (split_on CHR ''/'' file))])\<rparr>)"
  using assms by (auto simp: add_def meetsPathRequirements_def Let_def)

lemma add_root_ok:
  assumes "file \<noteq> []" "JSON_ITEMS \<notin> set (split_on CHR ''/'' file)" "getPostProcessor env = None"
    and "fetch env dataDir file opts s = Inr (r, j, s1)"
    and "list_all plainName (split_on CHR ''/'' file)" "plainVariant env file"
    and "dirsAlong (if useStage opts then stage s1 else data s1) (split_on CHR ''/'' file)"
  shows "\<exists>root2. add env dataDir file opts s =
            Inr (if useStage opts then s1\<lparr>stage := root2\<rparr> else s1\<lparr>data := root2\<rparr>)
          \<and> dirsPresent root2 (split_on CHR ''/'' file)
          \<and> foldl andProp root2 (split_on CHR ''/'' file) = (if truthy j then j else r)"
proof -
  define parts where "parts = split_on CHR ''/'' file"
  define root where "root = (if useStage opts then stage s1 else data s1)"
  define content where "content = (if truthy j then j else r)"
  have ne: "parts \<noteq> []" by (simp add: parts_def split_on_nonempty)
  have nj: "JSON_ITEMS \<notin> set parts" using assms(2) by (simp add: parts_def)
  have pl: "list_all plainName parts" using assms(5) by (simp add: parts_def)
  have al: "dirsAlong root parts" using assms(7) by (simp add: parts_def root_def)
  from addWalk_ok[OF al ne nj pl assms(6), of content j] obtain root1 where
    r1: "addWalk env file content j root parts = Inr root1" "isDir root1"
    "dirsPresent root1 parts" "foldl andProp root1 parts = content" by blast
  from addFileToJsonItems_dir[OF r1(2) assms(6), of j] obtain root2 where
    r2: "addFileToJsonItems env root1 file j = Inr root2" "isDir root2"
    "\<forall>k. k \<noteq> JSON_ITEMS \<longrightarrow> propOf root2 k = propOf root1 k" by blast
  have p: "dirsPresent root2 parts"
    using dirsPresent_frame[OF r2(2) r1(2) r2(3) nj] r1(3) by simp
  have f: "foldl andProp root2 parts = content"
    using walk_frame[OF r2(2) r1(2) r2(3) nj ne] r1(4) by simp
  have "add env dataDir file opts s =
          Inr (if useStage opts then s1\<lparr>stage := root2\<rparr> else s1\<lparr>data := root2\<rparr>)"
    unfolding add_plain[OF assms(1,2,3,4)]
    using r1(1) r2(1)
    by (simp only: bindE_def sum.case parts_def root_def content_def)
  with p f show ?thesis unfolding parts_def content_def by blast
qed

lemma remove_ok:
  assumes "JSON_ITEMS \<notin> set (split_on CHR ''/'' file)" "getPostProcessor env = None"
    and "list_all plainName (split_on CHR ''/'' file)" "plainVariant env file"
    and "dirsPresent (data s) (split_on CHR ''/'' file)"
  shows "\<exists>root2. remove env file s = Inr (s\<lparr>data := root2\<rparr>)
          \<and> dirsPresent root2 (split_on CHR ''/'' file)
          \<and> foldl andProp root2 (split_on CHR ''/'' file) = Undefined"
proof -
  define parts where "parts = split_on CHR ''/'' file"
  have ne: "parts \<noteq> []" by (simp add: parts_def split_on_nonempty)
  have nj: "JSON_ITEMS \<notin> set parts" using assms(1) by (simp add: parts_def)
  have pl: "list_all plainName parts" using assms(3) by (simp add: parts_def)
  have al: "dirsPresent (data s) parts" using assms(5) by (simp add: parts_def)
  from removeWalk_ok[OF al ne nj pl assms(4), of "heap s"] obtain root1 where
    r1: "removeWalk env (heap s) file (data s) parts = Inr root1" "isDir root1"
    "dirsPresent root1 parts" "foldl andProp root1 parts = Undefined" by blast
  from removeFileFromJsonItems_dir[OF r1(2) assms(4), of "heap s"] obtain root2 where
    r2: "removeFileFromJsonItems env (heap s) root1 file = Inr root2" "isDir root2"
    "\<forall>k. k \<noteq> JSON_ITEMS \<longrightarrow> propOf root2 k = propOf root1 k" by blast
  have p: "dirsPresent root2 parts"
    using dirsPresent_frame[OF r2(2) r1(2) r2(3) nj] r1(3) by simp
  have f: "foldl andProp root2 parts = Undefined"
    using walk_frame[OF r2(2) r1(2) r2(3) nj ne] r1(4) by simp
  have "remove env file s = Inr (s\<lparr>data := root2\<rparr>)"
    unfolding remove_plain[OF assms(2)]
    using r1(1) r2(1)
    by (simp only: bindE_def sum.case parts_def)
  with p f show ?thesis unfolding parts_def by blast
qed

subsection \<open>Reading back what was added\<close>

text \<open>
  Claim C1, as stated, fails in three ways. A file whose path is the name of a member of
  \<^verbatim>\<open>Object.prototype\<close> is ingested and read back, but after its removal \<^verbatim>\<open>get\<close> of the path
  is not absent: the read finds the inherited member. An \<^verbatim>\<open>add\<close> whose path runs through
  a raw document returns without storing anything (a write on a string is ignored), so
  \<^verbatim>\<open>get\<close> of the path is not the document. And a raw file whose variant name is that of
  a member of \<^verbatim>\<open>Object.prototype\<close> is ingested and read back, but its \<^verbatim>\<open>remove\<close> throws.
\<close>

theorem get_after_remove_counterexample:
  "(case add exampleEnv ''data'' ''toString'' liveOptions emptyStore of
      Inl e \<Rightarrow> False
    | Inr s \<Rightarrow>
        get s ''toString'' = Inr (Str ''to string'')
        \<and> (case remove exampleEnv ''toString'' s of
              Inl e \<Rightarrow> False
            | Inr t \<Rightarrow> get t ''toString'' = Inr (Native ''toString'')))
   \<and> (case add exampleEnv ''data'' ''notes'' liveOptions emptyStore of
        Inl e \<Rightarrow> False
      | Inr s \<Rightarrow>
          (case add exampleEnv ''data'' ''notes/today.txt'' liveOptions s of
             Inl e \<Rightarrow> False
           | Inr t \<Rightarrow> data t = data s \<and> get t ''notes/today.txt'' = Inr Undefined))
   \<and> (case add exampleEnv ''data'' ''page--constructor.txt'' liveOptions emptyStore of
        Inl e \<Rightarrow> False
      | Inr s \<Rightarrow>
          get s ''page--constructor.txt'' = Inr (Str ''a page'')
          \<and> remove exampleEnv ''page--constructor.txt'' s = Inl TypeError)"
  by code_simp

text \<open>
  Claim C1, amended. Let a file be added to the live tree (\<^verbatim>\<open>useStage\<close> not set) under a
  relative path that \<^verbatim>\<open>add\<close> does not refuse, in a store with no post-processor, where no
  name in play (a segment of the path, the variant name, the cache key) is that of a
  member of \<^verbatim>\<open>Object.prototype\<close>, the contents that \<^verbatim>\<open>add\<close> works with are usable, and the
  directory segments along the path, where present, are directories. Then \<^verbatim>\<open>add\<close>
  returns, and \<^verbatim>\<open>get\<close> of the path returns the stored value, which shows exactly the
  document: the parsed contents carrying \<^verbatim>\<open>__FILENAME__\<close>, or the raw contents when there
  are no parsed ones. A \<^verbatim>\<open>remove\<close> of the path right after returns too, and \<^verbatim>\<open>get\<close> of the
  path is then \<^verbatim>\<open>undefined\<close>; the same holds for \<^verbatim>\<open>remove\<close> in any store in which the
  directories of the path are present.
\<close>

theorem add_get_remove_get:
  assumes "file \<noteq> []" "JSON_ITEMS \<notin> set (split_on CHR ''/'' file)"
    "plainNames env dataDir file" "usable env dataDir file opts s"
    "\<not> useStage opts" "getPostProcessor env = None"
    "dirsAlong (data s) (split_on CHR ''/'' file)"
  shows "(\<exists>s' v. add env dataDir file opts s = Inr s' \<and> get s' file = Inr v
            \<and> deref (heap s') v = documentOf (bodyRead env dataDir file opts s) file
            \<and> (\<exists>s''. remove env file s' = Inr s'' \<and> get s'' file = Inr Undefined))
         \<and> (\<forall>t. dirsPresent (data t) (split_on CHR ''/'' file)
                \<longrightarrow> (\<exists>t'. remove env file t = Inr t' \<and> get t' file = Inr Undefined))"
proof -
  from assms(3) have pn: "plainName (pathJoin env dataDir file)" and pv: "plainVariant env file"
    and pl: "list_all plainName (split_on CHR ''/'' file)" by (simp_all add: plainNames_def)
  from fetch_ok[OF assms(6) pn assms(4)] obtain c h r j where
    f: "fetch env dataDir file opts s = Inr (r, j, s\<lparr>cache := c, heap := h\<rparr>)"
    "deref h (if truthy j then j else r) = documentOf (bodyRead env dataDir file opts s) file"
    by blast
  have a: "dirsAlong (if useStage opts then stage (s\<lparr>cache := c, heap := h\<rparr>)
                      else data (s\<lparr>cache := c, heap := h\<rparr>)) (split_on CHR ''/'' file)"
    using assms(5,7) by simp
  from add_root_ok[OF assms(1,2,6) f(1) pl pv a] assms(5) obtain root2 where
    r: "add env dataDir file opts s = Inr (s\<lparr>cache := c, heap := h, data := root2\<rparr>)"
    "dirsPresent root2 (split_on CHR ''/'' file)"
    "foldl andProp root2 (split_on CHR ''/'' file) = (if truthy j then j else r)"
    by auto
  have rm: "\<exists>t'. remove env file t = Inr t' \<and> get t' file = Inr Undefined"
    if "dirsPresent (data t) (split_on CHR ''/'' file)" for t
  proof -
    from remove_ok[OF assms(2,6) pl pv that] obtain root3 where
      "remove env file t = Inr (t\<lparr>data := root3\<rparr>)" "dirsPresent root3 (split_on CHR ''/'' file)"
      "foldl andProp root3 (split_on CHR ''/'' file) = Undefined" by blast
    then show ?thesis using getWalk_dirs[OF _ pl, of root3 "heap t"] by (auto simp: get_def)
  qed
  have g: "get (s\<lparr>cache := c, heap := h, data := root2\<rparr>) file = Inr (if truthy j then j else r)"
    using getWalk_dirs[OF r(2) pl, of h] r(3) by (simp add: get_def)
  have "\<exists>s''. remove env file (s\<lparr>cache := c, heap := h, data := root2\<rparr>) = Inr s''
          \<and> get s'' file = Inr Undefined"
    using rm[of "s\<lparr>cache := c, heap := h, data := root2\<rparr>"] r(2) by simp
  with r(1) g f(2) rm show ?thesis by auto
qed

theorem add_get_remove_get_witness:
  "plainNames exampleEnv ''data'' ''en/article/1.json''
   \<and> usable exampleEnv ''data'' ''en/article/1.json'' liveOptions emptyStore
   \<and> dirsAlong (data emptyStore) (split_on CHR ''/'' ''en/article/1.json'')
   \<and> (\<exists>s' v. add exampleEnv ''data'' ''en/article/1.json'' liveOptions emptyStore = Inr s'
         \<and> get s' ''en/article/1.json'' = Inr v
         \<and> deref (heap s') v
             = Obj [(''title'', Str ''one''), (''__FILENAME__'', Str ''en/article/1.json'')]
         \<and> (\<exists>s''. remove exampleEnv ''en/article/1.json'' s' = Inr s''
                \<and> get s'' ''en/article/1.json'' = Inr Undefined))"
proof -
  have h1: "''en/article/1.json'' \<noteq> []" by simp
  have h2: "JSON_ITEMS \<notin> set (split_on CHR ''/'' ''en/article/1.json'')" by code_simp
  have h3: "plainNames exampleEnv ''data'' ''en/article/1.json''" by code_simp
  have h4: "usable exampleEnv ''data'' ''en/article/1.json'' liveOptions emptyStore" by code_simp
  have h5: "\<not> useStage liveOptions" by (simp add: liveOptions_def)
  have h6: "getPostProcessor exampleEnv = None" by (simp add: exampleEnv_def)
  have h7: "dirsAlong (data emptyStore) (split_on CHR ''/'' ''en/article/1.json'')" by code_simp
  have d: "documentOf (bodyRead exampleEnv ''data'' ''en/article/1.json'' liveOptions emptyStore)
             ''en/article/1.json''
           = Obj [(''title'', Str ''one''), (''__FILENAME__'', Str ''en/article/1.json'')]"
    by code_simp
  from add_get_remove_get[OF h1 h2 h3 h4 h5 h6 h7]
  have "\<exists>s' v. add exampleEnv ''data'' ''en/article/1.json'' liveOptions emptyStore = Inr s'
         \<and> get s' ''en/article/1.json'' = Inr v
         \<and> deref (heap s') v
             = documentOf (bodyRead exampleEnv ''data'' ''en/article/1.json'' liveOptions emptyStore)
                 ''en/article/1.json''
         \<and> (\<exists>s''. remove exampleEnv ''en/article/1.json'' s' = Inr s''
                \<and> get s'' ''en/article/1.json'' = Inr Undefined)"
    by blast
  then show ?thesis unfolding d using h3 h4 h7 by blast
qed

subsection \<open>Staging\<close>

text \<open>
  Claim C4, evaluated. The live tree holds \<^verbatim>\<open>en/article/1.json\<close>, read from
  \<^verbatim>\<open>data/en/article/1.json\<close>. An \<^verbatim>\<open>add\<close> into the staging tree with \<^verbatim>\<open>useCache\<close> set, of the
  same file under the base directory \<^verbatim>\<open>data/en\<close> and the relative path \<^verbatim>\<open>article/1.json\<close>,
  finds the entry of the cache and uses its object again, which is the very object the
  live tree holds: the write of \<^verbatim>\<open>__FILENAME__\<close> changes the document that \<^verbatim>\<open>get\<close> of the
  live path returns, before any \<^verbatim>\<open>promoteStage\<close>. The live tree itself is not written to.
  The source documents \<^verbatim>\<open>store.stage\<close> as the object for changes that do not touch
  \<^verbatim>\<open>store.data\<close>.
\<close>

theorem stage_add_rewrites_live_document:
  "get exampleStore ''en/article/1.json'' = Inr (Ref 0)
   \<and> deref (heap exampleStore) (Ref 0)
       = Obj [(''title'', Str ''one''), (''__FILENAME__'', Str ''en/article/1.json'')]
   \<and> pathJoin exampleEnv ''data/en'' ''article/1.json'' = pathJoin exampleEnv ''data'' ''en/article/1.json''
   \<and> (case add exampleEnv ''data/en'' ''article/1.json'' stageCacheOptions exampleStore of
         Inl e \<Rightarrow> False
       | Inr s' \<Rightarrow>
           data s' = data exampleStore
           \<and> get s' ''en/article/1.json'' = Inr (Ref 0)
           \<and> deref (heap s') (Ref 0)
               = Obj [(''title'', Str ''one''), (''__FILENAME__'', Str ''article/1.json'')])"
  by code_simp

text \<open>
  Claim C5. \<^verbatim>\<open>promoteStage()\<close> makes the live tree, index included, equal to what the
  staging tree held at the call, and leaves the staging area equal to the empty skeleton,
  whose index has \<^verbatim>\<open>main = []\<close> and \<^verbatim>\<open>variants = {}\<close>. The cache, the heap and the log are
  untouched.
\<close>

theorem promoteStage_replaces_live:
  "data (promoteStage s) = stage s
   \<and> stage (promoteStage s) = storeDataSkeleton
   \<and> propOf (propOf (stage (promoteStage s)) JSON_ITEMS) MAIN = Arr [] []
   \<and> propOf (propOf (stage (promoteStage s)) JSON_ITEMS) VARIANTS = Obj []
   \<and> cache (promoteStage s) = cache s \<and> heap (promoteStage s) = heap s
   \<and> logged (promoteStage s) = logged s"
  by (simp add: promoteStage_def deepClone_skeleton)
     (simp add: storeDataSkeleton_def JSON_ITEMS_def MAIN_def VARIANTS_def)

text \<open>
  Claim C6. An \<^verbatim>\<open>add\<close> whose relative file path is empty, or has the reserved name
  \<^verbatim>\<open>_json\<close> among its segments, returns normally and leaves both trees, every index, the
  cache and the heap as they were; for the empty path nothing is logged, for the reserved
  segment exactly one warning is logged and nothing is thrown.
\<close>

theorem add_refuses_unchanged:
  assumes "file = [] \<or> JSON_ITEMS \<in> set (split_on CHR ''/'' file)"
  shows "add env dataDir file opts s =
           Inr (s\<lparr>logged := (if file = [] then logged s
                               else logged s @ [Warn (skipMessage (split_on CHR ''/'' file))])\<rparr>)"
  using assms by (auto simp: add_def meetsPathRequirements_def Let_def)

theorem add_refuses_unchanged_witness:
  "JSON_ITEMS \<in> set (split_on CHR ''/'' ''en/_json/40000/41234.json'')
   \<and> add exampleEnv ''data'' ''en/_json/40000/41234.json'' liveOptions emptyStore =
       Inr (emptyStore\<lparr>logged :=
              [Warn (skipMessage [''en'', ''_json'', ''40000'', ''41234.json''])]\<rparr>)"
proof -
  have h: "JSON_ITEMS \<in> set (split_on CHR ''/'' ''en/_json/40000/41234.json'')"
    by (simp add: JSON_ITEMS_def)
  have "split_on CHR ''/'' ''en/_json/40000/41234.json'' = [''en'', ''_json'', ''40000'', ''41234.json'']"
    by simp
  with h add_refuses_unchanged [of "''en/_json/40000/41234.json''" exampleEnv "''data''" liveOptions emptyStore]
  show ?thesis by (simp add: emptyStore_def)
qed

subsection \<open>Update\<close>




subsection \<open>Removing a path that is not there\<close>

text \<open>
  Claim C3, evaluated. In the store holding \<^verbatim>\<open>en/article/1.json\<close> there is no segment
  \<^verbatim>\<open>fr\<close>, and \<^verbatim>\<open>get\<close> of \<^verbatim>\<open>fr/article/1.json\<close> is \<^verbatim>\<open>undefined\<close>. \<^verbatim>\<open>remove\<close> of that path returns
  without an exception, but it is not a no-op: \<^verbatim>\<open>findIndex\<close> gives \<open>-1\<close> at the root index
  and \<^verbatim>\<open>splice(-1, 1)\<close> takes the last entry of \<^verbatim>\<open>main\<close> away, so the root index no longer
  lists the article that is still in the tree.
\<close>

theorem remove_absent_path_drops_index_entry:
  "optProp (data exampleStore) ''fr'' = Inr Undefined
   \<and> get exampleStore ''fr/article/1.json'' = Inr Undefined
   \<and> shown (heap exampleStore) (propOf (propOf (data exampleStore) JSON_ITEMS) MAIN)
       = Arr [Obj [(''title'', Str ''one''), (''__FILENAME__'', Str ''en/article/1.json'')]] []
   \<and> (case remove exampleEnv ''fr/article/1.json'' exampleStore of
         Inl e \<Rightarrow> False
       | Inr s' \<Rightarrow>
           propOf (propOf (data s') JSON_ITEMS) MAIN = Arr [] []
           \<and> bindE (get s' ''en/article/1.json'') (\<lambda>v. Inr (deref (heap s') v))
               = Inr (Obj [(''title'', Str ''one''), (''__FILENAME__'', Str ''en/article/1.json'')])
           \<and> get s' ''fr/article/1.json'' = Inr Undefined)"
  by code_simp

subsection \<open>The index of every level\<close>

lemma addFileToJsonItems_index:
  assumes "indexIs leaf M G" "plainVariant env file"
  shows "\<exists>leaf'. addFileToJsonItems env leaf file j = Inr leaf'
           \<and> indexIs leaf'
                (if truthy j \<and> variantOf env file = None then M @ [j] else M)
                (\<lambda>v. if truthy j \<and> variantOf env file = Some v then G v @ [j] else G v)
           \<and> (\<forall>k. k \<noteq> JSON_ITEMS \<longrightarrow> propOf leaf' k = propOf leaf k)"
proof -
  from assms have dir: "isDir leaf" by (simp add: indexIs_def)
  from dir obtain ps ips xs vps where p: "leaf = Obj ps" "map_of ps JSON_ITEMS = Some (Obj ips)"
    "map_of ips MAIN = Some (Arr xs [])" "map_of ips VARIANTS = Some (Obj vps)"
    and ga: "list_all (\<lambda>kv. isList (snd kv)) vps"
    by (rule isDir_parts)
  from assms(1) p have mm: "xs = M" by (simp add: indexIs_def mainVal_def)
  from assms(1) p have gg: "\<And>v. propOf (Obj vps) v = groupShown (G v)"
    by (simp add: indexIs_def groupVal_def)
  show ?thesis
  proof (cases "truthy j")
    case False
    then show ?thesis using assms by (simp add: addFileToJsonItems_def)
  next
    case True
    show ?thesis
    proof (cases "variantOf env file")
      case None
      have "addFileToJsonItems env leaf file j
              = Inr (Obj (AList.update JSON_ITEMS (Obj (AList.update MAIN (Arr (M @ [j]) []) ips)) ps))"
        using True None p mm
        by (simp add: addFileToJsonItems_def bindE_def getProp_Obj push_list writeBack_Obj)
      moreover have "indexIs (Obj (AList.update JSON_ITEMS (Obj (AList.update MAIN (Arr (M @ [j]) []) ips)) ps))
              (M @ [j]) G"
        using p ga gg
        by (simp add: indexIs_def isDir_def indexOk_def mainVal_def groupVal_def update_conv')
      ultimately show ?thesis using True None p
        by (simp add: propOf_Obj_update del: propOf.simps)
    next
      case (Some v)
      then have pv: "plainName v" using assms(2) by (simp add: plainVariant_def)
      define grp where "grp = Arr (G v @ [j]) []"
      define vps' where "vps' = AList.update v grp (if G v = [] then AList.update v (Arr [] []) vps else vps)"
      have own: "G v \<noteq> [] \<Longrightarrow> map_of vps v = Some (Arr (G v) [])"
        using gg[of v] by (auto simp: groupShown_def split: option.splits)
      have none: "map_of vps v = None" if "G v = []"
      proof (cases "map_of vps v")
        case (Some g)
        then have "(v, g) \<in> set vps" by (rule map_of_SomeD)
        with ga have "isList g" by (auto simp: list_all_iff)
        with Some gg[of v] that show ?thesis by (auto simp: groupShown_def)
      qed simp
      have "addFileToJsonItems env leaf file j
              = Inr (Obj (AList.update JSON_ITEMS (Obj (AList.update VARIANTS (Obj vps') ips)) ps))"
      proof (cases "G v = []")
        case e: True
        show ?thesis using True Some p pv none[OF e] e
          by (simp add: addFileToJsonItems_def bindE_def getProp_Obj setProp_Obj push_list
              writeBack_Obj vps'_def grp_def update_conv')
      next
        case e: False
        show ?thesis using True Some p pv own[OF e] e
          by (simp add: addFileToJsonItems_def bindE_def getProp_Obj setProp_Obj push_list
              writeBack_Obj vps'_def grp_def update_conv')
      qed
      moreover have "indexIs (Obj (AList.update JSON_ITEMS (Obj (AList.update VARIANTS (Obj vps') ips)) ps))
              M (\<lambda>w. if w = v then G w @ [j] else G w)"
      proof -
        have a: "list_all (\<lambda>kv. isList (snd kv)) vps'"
          using ga by (simp add: vps'_def grp_def list_all_update)
        have b: "propOf (Obj vps') w = groupShown (if w = v then G w @ [j] else G w)" for w
          using gg[of w]
          by (simp add: vps'_def grp_def propOf_Obj_update groupShown_def del: propOf.simps)
        have c: "groupVal (Obj (AList.update JSON_ITEMS (Obj (AList.update VARIANTS (Obj vps') ips)) ps)) w
                   = propOf (Obj vps') w" for w
          by (simp add: groupVal_def update_conv')
        show ?thesis using a p mm unfolding indexIs_def c b
          by (simp add: isDir_def indexOk_def mainVal_def update_conv')
      qed
      moreover have "(\<lambda>w. if truthy j \<and> variantOf env file = Some w then G w @ [j] else G w)
                      = (\<lambda>w. if w = v then G w @ [j] else G w)"
        using True Some by auto
      ultimately show ?thesis using True Some p
        by (simp add: propOf_Obj_update del: propOf.simps)
    qed
  qed
qed

lemma removeFileFromJsonItems_index:
  assumes "indexIs leaf M G" "plainVariant env file"
  shows "\<exists>leaf'. removeFileFromJsonItems env h leaf file = Inr leaf'
           \<and> indexIs leaf'
                (if variantOf env file = None then removeFirst h file M else M)
                (\<lambda>v. if variantOf env file = Some v then removeFirst h file (G v) else G v)
           \<and> (\<forall>k. k \<noteq> JSON_ITEMS \<longrightarrow> propOf leaf' k = propOf leaf k)"
proof -
  from assms have dir: "isDir leaf" by (simp add: indexIs_def)
  from dir obtain ps ips xs vps where p: "leaf = Obj ps" "map_of ps JSON_ITEMS = Some (Obj ips)"
    "map_of ips MAIN = Some (Arr xs [])" "map_of ips VARIANTS = Some (Obj vps)"
    and ga: "list_all (\<lambda>kv. isList (snd kv)) vps"
    by (rule isDir_parts)
  from assms(1) p have mm: "xs = M" by (simp add: indexIs_def mainVal_def)
  from assms(1) p have gg: "\<And>v. propOf (Obj vps) v = groupShown (G v)"
    by (simp add: indexIs_def groupVal_def)
  show ?thesis
  proof (cases "variantOf env file")
    case None
    have "removeFileFromJsonItems env h leaf file
            = Inr (Obj (AList.update JSON_ITEMS (Obj (AList.update MAIN (Arr (removeFirst h file M) []) ips)) ps))"
      using None p mm
      by (simp add: removeFileFromJsonItems_def bindE_def optProp_Obj spliceFile_list removeFirst_def
          writeBack_Obj)
    moreover have "indexIs (Obj (AList.update JSON_ITEMS (Obj (AList.update MAIN (Arr (removeFirst h file M) []) ips)) ps))
            (removeFirst h file M) G"
      using p ga gg
      by (simp add: indexIs_def isDir_def indexOk_def mainVal_def groupVal_def update_conv')
    ultimately show ?thesis using None p
      by (simp add: propOf_Obj_update del: propOf.simps)
  next
    case (Some v)
    then have pv: "plainName v" using assms(2) by (simp add: plainVariant_def)
    have fn: "(\<lambda>w. if variantOf env file = Some w then removeFirst h file (G w) else G w)
                = (\<lambda>w. if w = v then removeFirst h file (G w) else G w)"
      using Some by auto
    show ?thesis
    proof (cases "G v = []")
      case True
      have "map_of vps v = None"
      proof (cases "map_of vps v")
        case g: (Some g)
        then have "(v, g) \<in> set vps" by (rule map_of_SomeD)
        with ga have "isList g" by (auto simp: list_all_iff)
        with g gg[of v] True show ?thesis by (auto simp: groupShown_def)
      qed simp
      then have "removeFileFromJsonItems env h leaf file = Inr leaf"
        using Some p pv
        by (simp add: removeFileFromJsonItems_def bindE_def optProp_Obj)
      moreover have "removeFirst h file (G v) = G v"
        using True by (simp add: removeFirst_def splice1_def)
      then have "(\<lambda>w. if w = v then removeFirst h file (G w) else G w) = G" by auto
      ultimately show ?thesis using assms Some fn by simp
    next
      case False
      define vps' where "vps' = (if removeFirst h file (G v) = [] then AList.delete v vps
                                  else AList.update v (Arr (removeFirst h file (G v)) []) vps)"
      have own: "map_of vps v = Some (Arr (G v) [])"
        using gg[of v] False by (auto simp: groupShown_def split: option.splits)
      have "removeFileFromJsonItems env h leaf file
              = Inr (Obj (AList.update JSON_ITEMS (Obj (AList.update VARIANTS (Obj vps') ips)) ps))"
        using False Some p pv own
        by (simp add: removeFileFromJsonItems_def bindE_def optProp_Obj spliceFile_list vps'_def
            removeFirst_def arrayIndex_def isDigit_def writeBack_Obj)
      moreover have "indexIs (Obj (AList.update JSON_ITEMS (Obj (AList.update VARIANTS (Obj vps') ips)) ps))
              M (\<lambda>w. if w = v then removeFirst h file (G w) else G w)"
      proof -
        have a: "list_all (\<lambda>kv. isList (snd kv)) vps'"
          using ga by (simp add: vps'_def list_all_update list_all_delete)
        have b: "propOf (Obj vps') w = groupShown (if w = v then removeFirst h file (G w) else G w)" for w
          using gg[of w]
          by (simp add: vps'_def propOf_Obj_update propOf_Obj_delete groupShown_def del: propOf.simps)
        have c: "groupVal (Obj (AList.update JSON_ITEMS (Obj (AList.update VARIANTS (Obj vps') ips)) ps)) w
                   = propOf (Obj vps') w" for w
          by (simp add: groupVal_def update_conv')
        show ?thesis using a p mm unfolding indexIs_def c b
          by (simp add: isDir_def indexOk_def mainVal_def update_conv')
      qed
      ultimately show ?thesis using Some p fn
        by (simp add: propOf_Obj_update del: propOf.simps)
    qed
  qed
qed

lemma walk_Nil [simp]: "walk v [] = v" by (simp add: walk_def)
lemma walk_Cons [simp]: "walk v (k # L) = walk (propOf v k) L" by (simp add: walk_def)
lemma walk_append: "walk v (A @ B) = walk (walk v A) B" by (simp add: walk_def)
lemma walk_Undefined [simp]: "walk Undefined L = Undefined"
  by (induction L) auto

lemma walk_skeleton:
  "L \<noteq> [] \<Longrightarrow> hd L \<noteq> JSON_ITEMS \<Longrightarrow> walk storeDataSkeleton L = Undefined"
  by (cases L) (auto simp: skeleton_prop simp del: propOf.simps)

lemma walk_frame_dir:
  assumes "\<forall>k. k \<noteq> JSON_ITEMS \<longrightarrow> propOf a k = propOf b k" "L \<noteq> []" "hd L \<noteq> JSON_ITEMS"
  shows "walk a L = walk b L"
  using assms by (cases L) (auto simp del: propOf.simps)

lemma update_update: "AList.update k v (AList.update k w al) = AList.update k v al"
  by (induction al) auto

lemma addWalk_last:
  "plainName p \<Longrightarrow> addWalk env file content j (Obj ps0) [p] = Inr (Obj (AList.update p content ps0))"
  by (simp add: setProp_Obj)

lemma addWalk_step:
  assumes "isDir leaf" "p \<noteq> JSON_ITEMS" "plainName p" "plainVariant env file"
    and "child = (if truthy (propOf leaf p) then propOf leaf p else storeDataSkeleton)"
    and "isDir child" and "leaf = Obj ps0"
  shows "addWalk env file content j leaf (p # q # rest) =
           (case addFileToJsonItems env child file j of
              Inl e \<Rightarrow> Inl e
            | Inr child1 \<Rightarrow>
                (case addWalk env file content j child1 (q # rest) of
                   Inl e \<Rightarrow> Inl e
                 | Inr child2 \<Rightarrow> Inr (Obj (AList.update p child2 ps0))))"
proof -
  note leaf = assms(7)
  from addFileToJsonItems_dir[OF assms(6,4), of j] obtain child1 where
    c1: "addFileToJsonItems env child file j = Inr child1" "isDir child1" by blast
  have t: "truthy child1" using c1(2) by (rule isDir_truthy)
  show ?thesis
  proof (cases "truthy (propOf leaf p)")
    case True
    then have c: "child = propOf leaf p" using assms(5) by simp
    have o: "map_of ps0 p \<noteq> None" using True leaf by (auto split: option.splits)
    show ?thesis
      using leaf c1(1) t True c assms(3) o
      by (simp add: bindE_def getProp_Obj writeBack_Obj del: propOf.simps split: sum.splits)
  next
    case False
    then have c: "child = storeDataSkeleton" using assms(5) by simp
    show ?thesis
      using leaf c1(1) t False c assms(3)
      by (simp add: bindE_def getProp_Obj setProp_Obj writeBack_Obj deepClone_skeleton
          propOf_Obj_update update_update update_conv' del: propOf.simps split: sum.splits)
  qed
qed

lemma removeWalk_last: "removeWalk env h file (Obj ps0) [p] = Inr (Obj (AList.delete p ps0))"
  by simp

lemma removeWalk_step:
  assumes "isDir leaf" "isDir (propOf leaf p)" "plainName p" "plainVariant env file"
    and "leaf = Obj ps0"
  shows "removeWalk env h file leaf (p # q # rest) =
           (case removeFileFromJsonItems env h (propOf leaf p) file of
              Inl e \<Rightarrow> Inl e
            | Inr child1 \<Rightarrow>
                (case removeWalk env h file child1 (q # rest) of
                   Inl e \<Rightarrow> Inl e
                 | Inr child2 \<Rightarrow> Inr (Obj (AList.update p child2 ps0))))"
proof -
  note leaf = assms(5)
  from removeFileFromJsonItems_dir[OF assms(2,4), of h] obtain child1 where
    c1: "removeFileFromJsonItems env h (propOf leaf p) file = Inr child1" "isDir child1" by blast
  have t: "truthy child1" using c1(2) by (rule isDir_truthy)
  have "truthy (propOf leaf p)" using assms(2) by (rule isDir_truthy)
  then have o: "map_of ps0 p \<noteq> None" using leaf by (auto split: option.splits)
  show ?thesis
    using leaf c1(1) t assms(3) o
    by (auto simp: bindE_def getProp_Obj writeBack_Obj simp del: propOf.simps split: sum.splits)
qed

lemma free_dirsAlong:
  assumes "isDir leaf" "\<forall>L. strict_prefix L ps \<longrightarrow> isDir (walk leaf L) \<or> walk leaf L = Undefined"
  shows "dirsAlong leaf ps"
  using assms
proof (induction ps arbitrary: leaf)
  case Nil
  then show ?case by simp
next
  case (Cons p rest)
  show ?case
  proof (cases rest)
    case Nil
    then show ?thesis using Cons.prems by simp
  next
    case (Cons q r)
    have sp: "strict_prefix [p] (p # rest)" using Cons by (simp add: strict_prefix_def)
    with Cons.prems(2) have c: "isDir (propOf leaf p) \<or> propOf leaf p = Undefined"
      by (metis walk_Cons walk_Nil)
    show ?thesis
    proof (cases "truthy (propOf leaf p)")
      case False
      then show ?thesis using Cons Cons.prems(1) by simp
    next
      case True
      with c have d: "isDir (propOf leaf p)" by auto
      have "\<forall>L. strict_prefix L rest \<longrightarrow> isDir (walk (propOf leaf p) L) \<or> walk (propOf leaf p) L = Undefined"
      proof (intro allI impI)
        fix L assume "strict_prefix L rest"
        then have "strict_prefix (p # L) (p # rest)" by (simp add: strict_prefix_def)
        with Cons.prems(2) show "isDir (walk (propOf leaf p) L) \<or> walk (propOf leaf p) L = Undefined"
          by (metis walk_Cons)
      qed
      from Cons.IH[OF d this] True Cons.prems(1) Cons show ?thesis by simp
    qed
  qed
qed

lemma freeAlong_dirsAlong: "freeAlong leaf ps \<Longrightarrow> dirsAlong leaf ps"
  by (simp add: freeAlong_def free_dirsAlong)

lemma freeAlong_plain: "freeAlong leaf ps \<Longrightarrow> list_all plainName ps"
  by (simp add: freeAlong_def)

lemma freeAlong_first:
  assumes "freeAlong leaf (p # q # rest)"
  shows "isDir (propOf leaf p) \<or> propOf leaf p = Undefined"
proof -
  have "strict_prefix [p] (p # q # rest)" by (simp add: strict_prefix_def)
  with assms show ?thesis unfolding freeAlong_def by (metis walk_Cons walk_Nil)
qed

lemma freeAlong_child:
  assumes "freeAlong leaf (p # q # rest)" "JSON_ITEMS \<notin> set (q # rest)"
    and "child = (if truthy (propOf leaf p) then propOf leaf p else storeDataSkeleton)"
  shows "freeAlong child (q # rest)"
proof (cases "truthy (propOf leaf p)")
  case True
  then have c: "child = propOf leaf p" using assms(3) by simp
  have d: "isDir child" using freeAlong_first[OF assms(1)] True c by auto
  have pl: "list_all plainName (q # rest)" using assms(1) by (simp add: freeAlong_def)
  have "isDir (walk child L) \<or> walk child L = Undefined" if "strict_prefix L (q # rest)" for L
  proof -
    from that have "strict_prefix (p # L) (p # q # rest)" by (simp add: strict_prefix_def)
    with assms(1) show ?thesis unfolding freeAlong_def c by (metis walk_Cons)
  qed
  with d pl show ?thesis by (simp add: freeAlong_def)
next
  case False
  then have c: "child = storeDataSkeleton" using assms(3) by simp
  have pl: "list_all plainName (q # rest)" using assms(1) by (simp add: freeAlong_def)
  have "isDir (walk child L) \<or> walk child L = Undefined" if "strict_prefix L (q # rest)" for L
  proof (cases L)
    case Nil
    then show ?thesis by (simp add: c isDir_skeleton)
  next
    case (Cons x xs)
    with that have "x = q" by (auto simp: strict_prefix_def)
    then have "hd L \<noteq> JSON_ITEMS" using assms(2) Cons by auto
    then show ?thesis using walk_skeleton[of L] Cons c by simp
  qed
  then show ?thesis using pl by (simp add: freeAlong_def c isDir_skeleton)
qed

lemma freeAlong_frame:
  assumes "freeAlong a ps" "isDir b" "\<forall>k. k \<noteq> JSON_ITEMS \<longrightarrow> propOf b k = propOf a k"
    "JSON_ITEMS \<notin> set ps"
  shows "freeAlong b ps"
proof -
  have "isDir (walk b L) \<or> walk b L = Undefined" if "strict_prefix L ps" for L
  proof (cases L)
    case Nil
    then show ?thesis using assms(2) by simp
  next
    case (Cons x xs)
    from that have "set L \<subseteq> set ps" by (auto simp: strict_prefix_def prefix_def)
    then have "hd L \<noteq> JSON_ITEMS" using assms(4) Cons by auto
    then have "walk b L = walk a L" using walk_frame_dir[of b a L] assms(3) Cons by simp
    then show ?thesis using assms(1) that by (simp add: freeAlong_def)
  qed
  then show ?thesis using assms(1,2) by (simp add: freeAlong_def)
qed

lemma addWalk_frame:
  assumes "freeAlong leaf ps" "ps \<noteq> []" "JSON_ITEMS \<notin> set ps"
    "addWalk env file content j leaf ps = Inr leaf'"
    "strict_prefix c ps" "k \<noteq> ps ! length c" "k \<noteq> JSON_ITEMS"
    and pv: "plainVariant env file"
  shows "walk leaf' (c @ k # r) = walk leaf (c @ k # r)"
  using assms(1-7)
proof (induction ps arbitrary: leaf leaf' c)
  case Nil
  then show ?case by simp
next
  case (Cons p rest)
  from Cons.prems(1) have dir: "isDir leaf" by (simp add: freeAlong_def)
  then obtain ps0 where leaf: "leaf = Obj ps0" by (auto simp: isDir_def isObj_conv)
  have pj: "p \<noteq> JSON_ITEMS" using Cons.prems(3) by auto
  have pp: "plainName p" using Cons.prems(1) by (simp add: freeAlong_def)
  show ?case
  proof (cases rest)
    case Nil
    then have c: "c = []" using Cons.prems(5) by (auto simp: strict_prefix_def prefix_Cons)
    have "leaf' = Obj (AList.update p content ps0)"
      using Cons.prems(4) Nil leaf addWalk_last[OF pp, of env "file" content j ps0] by simp
    then show ?thesis using c Cons.prems(6) leaf
      by (simp add: propOf_Obj_update del: propOf.simps)
  next
    case (Cons q rest')
    define child where "child = (if truthy (propOf leaf p) then propOf leaf p else storeDataSkeleton)"
    have rj: "JSON_ITEMS \<notin> set (q # rest')" using Cons Cons.prems(3) by auto
    have fa: "freeAlong child (q # rest')"
      using freeAlong_child[OF _ rj child_def] Cons.prems(1) Cons by simp
    then have cd: "isDir child" by (simp add: freeAlong_def)
    from addFileToJsonItems_dir[OF cd pv, of j] obtain child1 where
      c1: "addFileToJsonItems env child file j = Inr child1" "isDir child1"
      "\<forall>k. k \<noteq> JSON_ITEMS \<longrightarrow> propOf child1 k = propOf child k" by blast
    have fa1: "freeAlong child1 (q # rest')" using freeAlong_frame[OF fa c1(2,3) rj] .
    from Cons.prems(4) obtain child2 where
      c2: "addWalk env file content j child1 (q # rest') = Inr child2"
      and l'': "leaf' = Obj (AList.update p child2 ps0)"
      unfolding Cons addWalk_step[OF dir pj pp pv child_def cd leaf] using c1(1)
      by (auto split: sum.splits)
    show ?thesis
    proof (cases c)
      case Nil
      then show ?thesis using Cons.prems(6) leaf l''
        by (simp add: propOf_Obj_update del: propOf.simps)
    next
      case (Cons x c')
      with Cons.prems(5) have x: "x = p" and sp: "strict_prefix c' rest"
        by (auto simp: strict_prefix_def)
      have kk: "k \<noteq> rest ! length c'" using Cons.prems(6) Cons by simp
      have ih: "walk child2 (c' @ k # r) = walk child1 (c' @ k # r)"
        using Cons.IH[OF _ _ _ _ sp kk Cons.prems(7), of child1 child2] fa1 c2 rj \<open>rest = q # rest'\<close>
        by simp
      have hdn: "hd (c' @ k # r) \<noteq> JSON_ITEMS"
      proof (cases c')
        case Nil
        then show ?thesis using Cons.prems(7) by simp
      next
        case (Cons y ys)
        with sp have "y \<in> set rest" by (auto simp: strict_prefix_def prefix_def)
        then show ?thesis using Cons rj \<open>rest = q # rest'\<close> by auto
      qed
      have f1: "walk child1 (c' @ k # r) = walk child (c' @ k # r)"
        using walk_frame_dir[of child1 child "c' @ k # r"] c1(3) hdn by simp
      have f2: "walk child (c' @ k # r) = walk (propOf leaf p) (c' @ k # r)"
      proof (cases "truthy (propOf leaf p)")
        case True
        then show ?thesis by (simp add: child_def)
      next
        case False
        have "isDir (propOf leaf p) \<or> propOf leaf p = Undefined"
          using freeAlong_first Cons.prems(1) \<open>rest = q # rest'\<close> by blast
        with False have u: "propOf leaf p = Undefined" by (auto dest: isDir_truthy)
        have "walk storeDataSkeleton (c' @ k # r) = Undefined"
          using walk_skeleton[of "c' @ k # r"] hdn by simp
        then show ?thesis using False u by (simp add: child_def)
      qed
      have "walk leaf' (c @ k # r) = walk child2 (c' @ k # r)"
        using Cons x l'' by (simp add: propOf_Obj_update del: propOf.simps)
      also have "\<dots> = walk (propOf leaf p) (c' @ k # r)" using ih f1 f2 by simp
      finally show ?thesis using Cons x by simp
    qed
  qed
qed

lemma addWalk_onpath:
  assumes "freeAlong leaf ps" "ps \<noteq> []" "JSON_ITEMS \<notin> set ps"
    "addWalk env file content j leaf ps = Inr leaf'"
    "strict_prefix L ps" "L \<noteq> []" "indexIs (dirOrNew (walk leaf L)) M G"
    and pv: "plainVariant env file"
  shows "indexIs (walk leaf' L)
           (if truthy j \<and> variantOf env file = None then M @ [j] else M)
           (\<lambda>v. if truthy j \<and> variantOf env file = Some v then G v @ [j] else G v)"
  using assms(1-7)
proof (induction ps arbitrary: leaf leaf' L)
  case Nil
  then show ?case by simp
next
  case (Cons p rest)
  from Cons.prems(1) have dir: "isDir leaf" by (simp add: freeAlong_def)
  then obtain ps0 where leaf: "leaf = Obj ps0" by (auto simp: isDir_def isObj_conv)
  have pj: "p \<noteq> JSON_ITEMS" using Cons.prems(3) by auto
  have pp: "plainName p" using Cons.prems(1) by (simp add: freeAlong_def)
  from Cons.prems(5,6) obtain L' where L: "L = p # L'" and sp: "strict_prefix L' rest"
    by (cases L) (auto simp: strict_prefix_def)
  then obtain q rest' where rest: "rest = q # rest'" by (cases rest) (auto simp: strict_prefix_def)
  define child where "child = (if truthy (propOf leaf p) then propOf leaf p else storeDataSkeleton)"
  have rj: "JSON_ITEMS \<notin> set (q # rest')" using rest Cons.prems(3) by auto
  have fa: "freeAlong child (q # rest')"
    using freeAlong_child[OF _ rj child_def] Cons.prems(1) rest by simp
  then have cd: "isDir child" by (simp add: freeAlong_def)
  have fst: "isDir (propOf leaf p) \<or> propOf leaf p = Undefined"
    using freeAlong_first Cons.prems(1) rest by blast
  then have child_eq: "child = dirOrNew (propOf leaf p)"
    by (auto simp: child_def dirOrNew_def dest: isDir_truthy)
  from addFileToJsonItems_dir[OF cd pv, of j] obtain child1 where
    c1: "addFileToJsonItems env child file j = Inr child1" "isDir child1"
    "\<forall>k. k \<noteq> JSON_ITEMS \<longrightarrow> propOf child1 k = propOf child k" by blast
  have fa1: "freeAlong child1 (q # rest')" using freeAlong_frame[OF fa c1(2,3) rj] .
  from Cons.prems(4) obtain child2 where
    c2: "addWalk env file content j child1 (q # rest') = Inr child2"
    and l'': "leaf' = Obj (AList.update p child2 ps0)"
    unfolding rest addWalk_step[OF dir pj pp pv child_def cd leaf] using c1(1)
    by (auto split: sum.splits)
  have w: "walk leaf' L = walk child2 L'"
    using L l'' by (simp add: propOf_Obj_update del: propOf.simps)
  show ?case
  proof (cases "L' = []")
    case True
    then have "indexIs child M G" using Cons.prems(7) L child_eq by simp
    from addFileToJsonItems_index[OF this pv, of j] c1(1)
    have i1: "indexIs child1
                (if truthy j \<and> variantOf env file = None then M @ [j] else M)
                (\<lambda>v. if truthy j \<and> variantOf env file = Some v then G v @ [j] else G v)"
      by auto
    from addWalk_ok[OF freeAlong_dirsAlong[OF fa1] _ rj freeAlong_plain[OF fa1] pv, of content j] c2
    have "isDir child2" "propOf child2 JSON_ITEMS = propOf child1 JSON_ITEMS" by auto
    from indexIs_frame[OF i1 this] show ?thesis using w True by simp
  next
    case False
    have hdn: "hd L' \<noteq> JSON_ITEMS"
      using sp False rj rest by (cases L') (auto simp: strict_prefix_def prefix_def)
    have f1: "walk child1 L' = walk child L'"
      using walk_frame_dir[of child1 child L'] c1(3) hdn False by simp
    have f2: "walk child L' = walk (propOf leaf p) L'"
    proof (cases "truthy (propOf leaf p)")
      case True
      then show ?thesis by (simp add: child_def)
    next
      case f: False
      with fst have u: "propOf leaf p = Undefined" by (auto dest: isDir_truthy)
      have "walk storeDataSkeleton L' = Undefined"
        using walk_skeleton[of L'] hdn False by simp
      then show ?thesis using f u by (simp add: child_def)
    qed
    have "indexIs (dirOrNew (walk child1 L')) M G"
      using Cons.prems(7) L f1 f2 by simp
    from Cons.IH[OF _ _ _ _ sp False this, of child2] fa1 c2 rj rest
    show ?thesis using w by simp
  qed
qed

lemma presentAlong_plain: "presentAlong leaf ps \<Longrightarrow> list_all plainName ps"
  by (simp add: presentAlong_def)

lemma presentAlong_child:
  assumes "presentAlong leaf (p # q # rest)"
  shows "presentAlong (propOf leaf p) (q # rest)"
proof -
  have "isDir (walk (propOf leaf p) L)" if "strict_prefix L (q # rest)" for L
  proof -
    from that have "strict_prefix (p # L) (p # q # rest)" by (simp add: strict_prefix_def)
    with assms show ?thesis unfolding presentAlong_def by (metis walk_Cons)
  qed
  then show ?thesis using assms by (simp add: presentAlong_def)
qed

lemma presentAlong_isDir: "ps \<noteq> [] \<Longrightarrow> presentAlong leaf ps \<Longrightarrow> isDir leaf"
proof -
  assume "ps \<noteq> []" "presentAlong leaf ps"
  moreover from \<open>ps \<noteq> []\<close> have "strict_prefix [] ps" by (simp add: strict_prefix_def)
  ultimately show ?thesis unfolding presentAlong_def by (metis walk_Nil)
qed

lemma presentAlong_dirsPresent: "presentAlong leaf ps \<Longrightarrow> dirsPresent leaf ps"
proof (induction ps arbitrary: leaf)
  case Nil
  then show ?case by simp
next
  case (Cons p rest)
  have d: "isDir leaf" using presentAlong_isDir[OF _ Cons.prems] by simp
  show ?case
  proof (cases rest)
    case Nil
    then show ?thesis using d by simp
  next
    case (Cons q r)
    then show ?thesis using d Cons.IH[of "propOf leaf p"] presentAlong_child Cons.prems by auto
  qed
qed

lemma presentAlong_frame:
  assumes "presentAlong a ps" "isDir b" "\<forall>k. k \<noteq> JSON_ITEMS \<longrightarrow> propOf b k = propOf a k"
    "JSON_ITEMS \<notin> set ps"
  shows "presentAlong b ps"
proof -
  have "isDir (walk b L)" if sp: "strict_prefix L ps" for L
  proof (cases L)
    case Nil
    then show ?thesis using assms(2) by simp
  next
    case (Cons x xs)
    from sp have "set L \<subseteq> set ps" by (auto simp: strict_prefix_def prefix_def)
    then have "hd L \<noteq> JSON_ITEMS" using assms(4) Cons by auto
    then have "walk b L = walk a L" using walk_frame_dir[of b a L] assms(3) Cons by simp
    then show ?thesis using assms(1) sp by (simp add: presentAlong_def)
  qed
  then show ?thesis using assms(1) by (simp add: presentAlong_def)
qed

lemma removeWalk_effect:
  assumes "presentAlong leaf ps" "ps \<noteq> []" "JSON_ITEMS \<notin> set ps"
    "removeWalk env h file leaf ps = Inr leaf'"
    and pv: "plainVariant env file"
  shows "walk leaf' ps = Undefined
       \<and> (\<forall>c k r. strict_prefix c ps \<longrightarrow> k \<noteq> ps ! length c \<longrightarrow> k \<noteq> JSON_ITEMS
             \<longrightarrow> walk leaf' (c @ k # r) = walk leaf (c @ k # r))
       \<and> (\<forall>L M G. strict_prefix L ps \<longrightarrow> L \<noteq> [] \<longrightarrow> indexIs (walk leaf L) M G
             \<longrightarrow> indexIs (walk leaf' L)
                 (if variantOf env file = None then removeFirst h file M else M)
                 (\<lambda>v. if variantOf env file = Some v then removeFirst h file (G v) else G v))"
  using assms(1-4)
proof (induction ps arbitrary: leaf leaf')
  case Nil
  then show ?case by simp
next
  case (Cons p rest)
  have pre: "presentAlong leaf (p # rest)" "JSON_ITEMS \<notin> set (p # rest)"
    "removeWalk env h file leaf (p # rest) = Inr leaf'"
    using Cons.prems by auto
  have IH1: "walk b' rest = Undefined"
    if "presentAlong b rest" "rest \<noteq> []" "JSON_ITEMS \<notin> set rest" "removeWalk env h file b rest = Inr b'"
    for b b' using Cons.IH[OF that] by blast
  have IH2: "walk b' (c @ k # r) = walk b (c @ k # r)"
    if "presentAlong b rest" "rest \<noteq> []" "JSON_ITEMS \<notin> set rest" "removeWalk env h file b rest = Inr b'"
      "strict_prefix c rest" "k \<noteq> rest ! length c" "k \<noteq> JSON_ITEMS"
    for b b' c k r using Cons.IH[OF that(1-4)] that(5-7) by blast
  have IH3: "indexIs (walk b' L)
                 (if variantOf env file = None then removeFirst h file M else M)
                 (\<lambda>v. if variantOf env file = Some v then removeFirst h file (G v) else G v)"
    if "presentAlong b rest" "rest \<noteq> []" "JSON_ITEMS \<notin> set rest" "removeWalk env h file b rest = Inr b'"
      "strict_prefix L rest" "L \<noteq> []" "indexIs (walk b L) M G"
    for b b' L M G using Cons.IH[OF that(1-4)] that(5-7) by blast
  have dir: "isDir leaf" using presentAlong_isDir[OF _ pre(1)] by simp
  then obtain ps0 where leaf: "leaf = Obj ps0" by (auto simp: isDir_def isObj_conv)
  have pj: "p \<noteq> JSON_ITEMS" using pre(2) by auto
  have pp: "plainName p" using pre(1) by (simp add: presentAlong_def)
  have last: "leaf' = Obj (AList.delete p ps0)" if "rest = []"
    using pre(3) leaf that by simp
  have more: "\<exists>child1 child2.
      removeFileFromJsonItems env h (propOf leaf p) file = Inr child1 \<and> isDir child1
      \<and> (\<forall>k. k \<noteq> JSON_ITEMS \<longrightarrow> propOf child1 k = propOf (propOf leaf p) k)
      \<and> presentAlong child1 (q # rest')
      \<and> removeWalk env h file child1 (q # rest') = Inr child2
      \<and> leaf' = Obj (AList.update p child2 ps0)
      \<and> isDir (propOf leaf p)"
    if rest: "rest = q # rest'" for q rest'
  proof -
    have pc: "presentAlong (propOf leaf p) (q # rest')"
      using presentAlong_child pre(1) rest by blast
    have cd: "isDir (propOf leaf p)" using presentAlong_isDir[OF _ pc] by simp
    have rj: "JSON_ITEMS \<notin> set (q # rest')" using rest pre(2) by auto
    from removeFileFromJsonItems_dir[OF cd pv, of h] obtain child1 where
      c1: "removeFileFromJsonItems env h (propOf leaf p) file = Inr child1" "isDir child1"
      "\<forall>k. k \<noteq> JSON_ITEMS \<longrightarrow> propOf child1 k = propOf (propOf leaf p) k" by blast
    have pc1: "presentAlong child1 (q # rest')" using presentAlong_frame[OF pc c1(2,3) rj] .
    from pre(3) obtain child2 where
      c2: "removeWalk env h file child1 (q # rest') = Inr child2"
      and l'': "leaf' = Obj (AList.update p child2 ps0)"
      unfolding rest removeWalk_step[OF dir cd pp pv leaf] using c1(1) by (auto split: sum.splits)
    show ?thesis using c1 pc1 c2 l'' cd by blast
  qed
  show ?case
  proof (intro conjI allI impI)
    show g1: "walk leaf' (p # rest) = Undefined"
    proof (cases rest)
      case Nil
      then show ?thesis using last by (simp add: propOf_Obj_delete del: propOf.simps)
    next
      case (Cons q rest')
      from more[OF Cons] obtain child1 child2 where
        pc1: "presentAlong child1 (q # rest')"
        and c2: "removeWalk env h file child1 (q # rest') = Inr child2"
        and l'': "leaf' = Obj (AList.update p child2 ps0)" by blast
      have rj: "JSON_ITEMS \<notin> set (q # rest')" using Cons pre(2) by auto
      have "walk child2 (q # rest') = Undefined"
        using IH1[of child1 child2] pc1 rj c2 Cons by simp
      then show ?thesis using l'' Cons by (simp add: propOf_Obj_update del: propOf.simps)
    qed
  next
    fix c k r
    assume sp: "strict_prefix c (p # rest)" and kk: "k \<noteq> (p # rest) ! length c" and kj: "k \<noteq> JSON_ITEMS"
    show "walk leaf' (c @ k # r) = walk leaf (c @ k # r)"
    proof (cases rest)
      case Nil
      then have c: "c = []" using sp by (auto simp: strict_prefix_def prefix_Cons)
      show ?thesis using c kk leaf last[OF Nil] by (simp add: propOf_Obj_delete del: propOf.simps)
    next
      case (Cons q rest')
      from more[OF Cons] obtain child1 child2 where
        c1: "\<forall>k. k \<noteq> JSON_ITEMS \<longrightarrow> propOf child1 k = propOf (propOf leaf p) k"
        and pc1: "presentAlong child1 (q # rest')"
        and c2: "removeWalk env h file child1 (q # rest') = Inr child2"
        and l'': "leaf' = Obj (AList.update p child2 ps0)" by blast
      have rj: "JSON_ITEMS \<notin> set (q # rest')" using Cons pre(2) by auto
      show ?thesis
      proof (cases c)
        case Nil
        then show ?thesis using kk leaf l'' by (simp add: propOf_Obj_update del: propOf.simps)
      next
        case (Cons x c')
        with sp have x: "x = p" and sp': "strict_prefix c' rest" by (auto simp: strict_prefix_def)
        have kk': "k \<noteq> rest ! length c'" using kk Cons by simp
        have ih: "walk child2 (c' @ k # r) = walk child1 (c' @ k # r)"
          using IH2[of child1 child2 c' k r] pc1 rj c2 \<open>rest = q # rest'\<close> sp' kk' kj by simp
        have hdn: "hd (c' @ k # r) \<noteq> JSON_ITEMS"
        proof (cases c')
          case Nil
          then show ?thesis using kj by simp
        next
          case (Cons y ys)
          with sp' have "y \<in> set rest" by (auto simp: strict_prefix_def prefix_def)
          then show ?thesis using Cons rj \<open>rest = q # rest'\<close> by auto
        qed
        have f1: "walk child1 (c' @ k # r) = walk (propOf leaf p) (c' @ k # r)"
          using walk_frame_dir[of child1 "propOf leaf p" "c' @ k # r"] c1 hdn by simp
        have "walk leaf' (c @ k # r) = walk child2 (c' @ k # r)"
          using Cons x l'' by (simp add: propOf_Obj_update del: propOf.simps)
        then show ?thesis using ih f1 Cons x by simp
      qed
    qed
  next
    fix L M G
    assume sp: "strict_prefix L (p # rest)" and ne: "L \<noteq> []" and ii: "indexIs (walk leaf L) M G"
    show "indexIs (walk leaf' L)
                 (if variantOf env file = None then removeFirst h file M else M)
                 (\<lambda>v. if variantOf env file = Some v then removeFirst h file (G v) else G v)"
    proof -
      from sp ne obtain L' where L: "L = p # L'" and sp': "strict_prefix L' rest"
        by (cases L) (auto simp: strict_prefix_def)
      then obtain q rest' where rest: "rest = q # rest'" by (cases rest) (auto simp: strict_prefix_def)
      from more[OF rest] obtain child1 child2 where
        c1: "removeFileFromJsonItems env h (propOf leaf p) file = Inr child1" "isDir child1"
          "\<forall>k. k \<noteq> JSON_ITEMS \<longrightarrow> propOf child1 k = propOf (propOf leaf p) k"
        and pc1: "presentAlong child1 (q # rest')"
        and c2: "removeWalk env h file child1 (q # rest') = Inr child2"
        and l'': "leaf' = Obj (AList.update p child2 ps0)" by blast
      have rj: "JSON_ITEMS \<notin> set (q # rest')" using rest pre(2) by auto
      have w: "walk leaf' L = walk child2 L'"
        using L l'' by (simp add: propOf_Obj_update del: propOf.simps)
      show ?thesis
      proof (cases "L' = []")
        case True
        then have "indexIs (propOf leaf p) M G" using ii L by simp
        from removeFileFromJsonItems_index[OF this pv, of h] c1(1)
        have i1: "indexIs child1
                 (if variantOf env file = None then removeFirst h file M else M)
                 (\<lambda>v. if variantOf env file = Some v then removeFirst h file (G v) else G v)"
          by auto
        from removeWalk_ok[OF presentAlong_dirsPresent[OF pc1] _ rj presentAlong_plain[OF pc1] pv, of h] c2
        have "isDir child2" "propOf child2 JSON_ITEMS = propOf child1 JSON_ITEMS" by auto
        from indexIs_frame[OF i1 this] show ?thesis using w True by simp
      next
        case False
        have hdn: "hd L' \<noteq> JSON_ITEMS"
          using sp' False rj rest by (cases L') (auto simp: strict_prefix_def prefix_def)
        have f1: "walk child1 L' = walk (propOf leaf p) L'"
          using walk_frame_dir[of child1 "propOf leaf p" L'] c1(3) hdn False by simp
        have "indexIs (walk child1 L') M G" using ii L f1 by simp
        from IH3[of child1 child2 L' M G] pc1 rj c2 rest sp' False this
        show ?thesis using w by simp
      qed
    qed
  qed
qed

lemma findIndexFrom_offset:
  "findIndexFrom p i xs = (if \<exists>y \<in> set xs. p y then findIndexFrom p 0 xs + i else - 1)"
proof (induction xs arbitrary: i)
  case Nil
  then show ?case by simp
next
  case (Cons x xs)
  show ?case
  proof (cases "p x")
    case True
    then show ?thesis by simp
  next
    case False
    have a: "findIndexFrom p (i + 1) xs
               = (if \<exists>y \<in> set xs. p y then findIndexFrom p 0 xs + (i + 1) else - 1)"
      by (rule Cons.IH)
    have b: "findIndexFrom p (0 + 1) xs
               = (if \<exists>y \<in> set xs. p y then findIndexFrom p 0 xs + (0 + 1) else - 1)"
      by (rule Cons.IH)
    show ?thesis using False a b by simp
  qed
qed

lemma findIndexFrom_shift:
  "findIndexFrom p (i + 1) xs = (if \<exists>y \<in> set xs. p y then findIndexFrom p i xs + 1 else - 1)"
  using findIndexFrom_offset[of p "i + 1" xs] findIndexFrom_offset[of p i xs] by simp

lemma findIndexFrom_found: "\<exists>y \<in> set xs. p y \<Longrightarrow> 0 \<le> i \<Longrightarrow> i \<le> findIndexFrom p i xs"
proof (induction xs arbitrary: i)
  case Nil
  then show ?case by simp
next
  case (Cons x xs)
  show ?case
  proof (cases "p x")
    case True
    then show ?thesis by simp
  next
    case False
    with Cons.prems have "\<exists>y \<in> set xs. p y" by auto
    from Cons.IH[OF this, of "i + 1"] Cons.prems(2) False show ?thesis by simp
  qed
qed

lemma splice1_Suc: "0 \<le> n \<Longrightarrow> splice1 (n + 1) (x # xs) = x # splice1 n xs"
  by (auto simp: splice1_def Let_def nat_add_distrib min_def)

lemma splice1_zero: "splice1 0 (x # xs) = xs"
  by (simp add: splice1_def Let_def)

lemma spliceFound_Cons:
  assumes "\<exists>y \<in> set (x # xs). p y"
  shows "splice1 (findIndex p (x # xs)) (x # xs)
           = (if p x then xs else x # splice1 (findIndex p xs) xs)"
proof (cases "p x")
  case True
  then show ?thesis by (simp add: findIndex_def splice1_zero)
next
  case False
  with assms have e: "\<exists>y \<in> set xs. p y" by auto
  have "findIndex p (x # xs) = findIndex p xs + 1"
    using False e findIndexFrom_shift[of p 0 xs] by (simp add: findIndex_def)
  moreover have "0 \<le> findIndex p xs"
    using findIndexFrom_found[OF e, of 0] by (simp add: findIndex_def)
  ultimately show ?thesis using False by (simp add: splice1_Suc)
qed

lemma removeFirst_filter:
  assumes "distinct (map fst F)" "(file, fc) \<in> set F" "P (file, fc)"
    and "\<forall>x \<in> set F. P x \<longrightarrow> (hasFilename h file (doc x) \<longleftrightarrow> fst x = file)"
  shows "removeFirst h file (map doc (filter P F))
           = map doc (filter P (filter (\<lambda>x. fst x \<noteq> file) F))"
  using assms
proof (induction F)
  case Nil
  then show ?case by simp
next
  case (Cons a F)
  show ?case
  proof (cases "fst a = file")
    case True
    have "(file, fc) \<notin> set F"
    proof
      assume "(file, fc) \<in> set F"
      then have "file \<in> fst ` set F" by force
      moreover have "fst a \<notin> fst ` set F" using Cons.prems(1) by simp
      ultimately show False using True by metis
    qed
    with Cons.prems(2) have a: "a = (file, fc)" by simp
    have nf: "\<forall>x \<in> set F. fst x \<noteq> file"
    proof
      fix x assume "x \<in> set F"
      then have "fst x \<in> fst ` set F" by simp
      moreover have "fst a \<notin> fst ` set F" using Cons.prems(1) by simp
      ultimately show "fst x \<noteq> file" using True by metis
    qed
    then have same: "filter (\<lambda>x. fst x \<noteq> file) F = F" by (simp add: filter_id_conv)
    have "hasFilename h file (doc a)" using Cons.prems(3,4) a by auto
    then have "removeFirst h file (doc a # map doc (filter P F)) = map doc (filter P F)"
      unfolding removeFirst_def
      using spliceFound_Cons[of "doc a" "map doc (filter P F)" "hasFilename h file"]
      by simp
    then show ?thesis using True a Cons.prems(3) same by simp
  next
    case False
    then have in_F: "(file, fc) \<in> set F" using Cons.prems(2) by auto
    have ih: "removeFirst h file (map doc (filter P F))
                = map doc (filter P (filter (\<lambda>x. fst x \<noteq> file) F))"
      using Cons.IH[OF _ in_F Cons.prems(3)] Cons.prems(1,4) by simp
    show ?thesis
    proof (cases "P a")
      case pa: True
      have nh: "\<not> hasFilename h file (doc a)" using Cons.prems(4) pa False by auto
      have ex: "\<exists>y \<in> set (doc a # map doc (filter P F)). hasFilename h file y"
      proof -
        have "doc (file, fc) \<in> set (map doc (filter P F))" using in_F Cons.prems(3) by auto
        moreover have "hasFilename h file (doc (file, fc))" using Cons.prems(3,4) Cons.prems(2) by auto
        ultimately show ?thesis by auto
      qed
      have "removeFirst h file (doc a # map doc (filter P F))
              = doc a # removeFirst h file (map doc (filter P F))"
        unfolding removeFirst_def using spliceFound_Cons[OF ex] nh by simp
      then show ?thesis using pa False ih by simp
    next
      case npa: False
      then show ?thesis using False ih by simp
    qed
  qed
qed

lemma tracked_empty: "tracked env storeDataSkeleton [] emptyIngestion"
proof -
  have "slotGroup env storeDataSkeleton [] [] = (\<lambda>v. [])" by (auto simp: slotGroup_def)
  then show ?thesis
    using indexIs_skeleton
    by (auto simp: tracked_def emptyIngestion_def slotMain_def skeleton_prop
        simp del: propOf.simps)
qed

lemma properPrefixes_iff: "(L \<in> set (properPrefixes ps)) = strict_prefix L ps"
proof
  assume "L \<in> set (properPrefixes ps)"
  then obtain i where "i < length ps" "L = take i ps" by (auto simp: properPrefixes_def)
  then show "strict_prefix L ps"
    by (metis append_take_drop_id length_take less_irrefl_nat min.absorb4 prefixI strict_prefixI)
next
  assume "strict_prefix L ps"
  then obtain r where r: "ps = L @ r" "r \<noteq> []" by (auto simp: strict_prefix_def prefix_def)
  then have "length L < length ps" "L = take (length L) ps" by auto
  then show "L \<in> set (properPrefixes ps)" unfolding properPrefixes_def
    by (metis (no_types, lifting) atLeastLessThan_iff image_eqI list.set_map set_upt zero_le)
qed

lemma join_split: "join_with c (split_on c s) = s"
proof (induction s)
  case Nil
  then show ?case by simp
next
  case (Cons x xs)
  obtain w ws where w: "split_on c xs = w # ws"
    using split_on_nonempty[of c xs] by (cases "split_on c xs") auto
  show ?case
  proof (cases "x = c")
    case True
    then show ?thesis using Cons w by simp
  next
    case False
    then show ?thesis using Cons w by (cases ws) auto
  qed
qed

lemma pathParts_inj: "pathParts a = pathParts b \<Longrightarrow> a = b"
  by (metis join_split pathParts_def)

lemma pathParts_nonempty: "pathParts f \<noteq> []"
  by (simp add: pathParts_def split_on_nonempty)

lemma walk_dirs: "dirsPresent root parts \<Longrightarrow> foldl andProp root parts = walk root parts"
  by (induction root parts rule: dirsPresent.induct)
     (auto simp: andProp_def isDir_truthy simp del: propOf.simps)

lemma holds_mono:
  "holds h v d \<Longrightarrow> length h \<le> length h' \<Longrightarrow> \<forall>a < length h. h' ! a = h ! a \<Longrightarrow> holds h' v d"
  by (cases v) auto

lemma holds_deref: "holds h v d \<Longrightarrow> deref h v = d"
  by (cases v) (auto simp: deref_def)

lemma filename_not_builtin: "\<not> mayBeBuiltin FILENAME"
  by (simp add: mayBeBuiltin_def FILENAME_def plainName_def objectPrototypeNames_def isLetter_def)

lemma filename_no_index: "arrayIndex FILENAME = None" "FILENAME \<noteq> ''length''"
  by (simp_all add: arrayIndex_def FILENAME_def isDigit_def)

text \<open>The predicate of \<^verbatim>\<open>findIndex\<close> on a value that holds a document: it finds the object
  or array of the file, and nothing else.\<close>

lemma hasFilename_holds:
  assumes "holds h v (withFilename j f)"
  shows "hasFilename h file v \<longleftrightarrow> (indexable j \<and> f = file)"
proof -
  have d: "deref h v = withFilename j f" using assms by (rule holds_deref)
  show ?thesis
  proof (cases "indexable j")
    case True
    then show ?thesis unfolding hasFilename_def d
      by (cases j)
         (auto simp: indexable_def optProp_def getProp_def update_conv' filename_no_index)
  next
    case False
    then have w: "withFilename j f = j" by (rule withFilename_plain)
    have nr: "\<And>a. j \<noteq> Ref a" using assms False unfolding w by (cases v) auto
    show ?thesis unfolding hasFilename_def d w using False nr
      by (cases j)
         (auto simp: indexable_def optProp_def getProp_def filename_not_builtin filename_no_index)
  qed
qed

lemma slotMain_append:
  "slotMain env root L (F @ [(file, fc)]) =
     (if truthy (json fc) \<and> variantOf env file = None \<and> under L file
      then slotMain env root L F @ [slotOf root file] else slotMain env root L F)"
  by (simp add: slotMain_def)

lemma slotGroup_append:
  "slotGroup env root L (F @ [(file, fc)]) =
     (\<lambda>v. if truthy (json fc) \<and> variantOf env file = Some v \<and> under L file
          then slotGroup env root L F v @ [slotOf root file] else slotGroup env root L F v)"
  by (rule ext) (simp add: slotGroup_def)

lemma slots_cong:
  assumes "\<forall>x \<in> set F. slotOf a (fst x) = slotOf b (fst x)"
  shows "slotMain env a L F = slotMain env b L F" "slotGroup env a L F = slotGroup env b L F"
proof -
  show "slotMain env a L F = slotMain env b L F"
    unfolding slotMain_def using assms by (intro map_cong) auto
  have "slotGroup env a L F v = slotGroup env b L F v" for v
    unfolding slotGroup_def using assms by (intro map_cong) auto
  then show "slotGroup env a L F = slotGroup env b L F" by (rule ext)
qed

lemma addWalk_parallel:
  assumes "freeAlong leaf ps" "ps \<noteq> []" "JSON_ITEMS \<notin> set ps"
    "addWalk env file content j leaf ps = Inr leaf'" "L \<parallel> ps" "JSON_ITEMS \<notin> set L"
    "plainVariant env file"
  shows "walk leaf' L = walk leaf L"
proof -
  from parallel_decomp[OF assms(5)] obtain as b bs c cs where
    d: "b \<noteq> c" "L = as @ b # bs" "ps = as @ c # cs" by blast
  have sp: "strict_prefix as ps" using d(3) by (simp add: strict_prefix_def)
  have k: "b \<noteq> ps ! length as" using d(1,3) by simp
  have bj: "b \<noteq> JSON_ITEMS" using assms(6) d(2) by auto
  show ?thesis unfolding d(2) using addWalk_frame[OF assms(1-4) sp k bj assms(7)] .
qed

lemma removeWalk_parallel:
  assumes "presentAlong leaf ps" "ps \<noteq> []" "JSON_ITEMS \<notin> set ps"
    "removeWalk env h file leaf ps = Inr leaf'" "L \<parallel> ps" "JSON_ITEMS \<notin> set L"
    "plainVariant env file"
  shows "walk leaf' L = walk leaf L"
proof -
  from parallel_decomp[OF assms(5)] obtain as b bs c cs where
    d: "b \<noteq> c" "L = as @ b # bs" "ps = as @ c # cs" by blast
  have sp: "strict_prefix as ps" using d(3) by (simp add: strict_prefix_def)
  have k: "b \<noteq> ps ! length as" using d(1,3) by simp
  have bj: "b \<noteq> JSON_ITEMS" using assms(6) d(2) by auto
  show ?thesis unfolding d(2) using removeWalk_effect[OF assms(1-4) assms(7)] sp k bj by blast
qed

lemma tracked_absent:
  assumes inv: "tracked env root h g"
    and nofile: "\<forall>x \<in> set (ingested g). \<not> strict_prefix (pathParts (fst x)) ps"
    and nj: "JSON_ITEMS \<notin> set ps"
  shows "strict_prefix L ps \<Longrightarrow> L \<notin> set (levels g) \<Longrightarrow> walk root L = Undefined"
proof (induction L rule: rev_induct)
  case Nil
  then show ?case using inv by (simp add: tracked_def)
next
  case (snoc k L0)
  have sp0: "strict_prefix L0 ps" using snoc.prems(1)
    by (metis prefix_order.dual_order.strict_trans strict_prefixI' append_Nil2 append.assoc append_Cons)
  have kj: "k \<noteq> JSON_ITEMS"
  proof -
    from snoc.prems(1) have "set (L0 @ [k]) \<subseteq> set ps" by (auto simp: strict_prefix_def prefix_def)
    then show ?thesis using nj by auto
  qed
  show ?case
  proof (cases "L0 \<in> set (levels g)")
    case True
    have "L0 @ [k] \<notin> pathParts ` fst ` set (ingested g)" using nofile snoc.prems(1) by auto
    with inv True snoc.prems(2) kj have "propOf (walk root L0) k = Undefined"
      unfolding tracked_def by blast
    then show ?thesis by (simp add: walk_append)
  next
    case False
    from snoc.IH[OF sp0 False] show ?thesis by (simp add: walk_append)
  qed
qed

lemma tracked_add:
  assumes inv: "tracked env (data s) (heap s) g" and ok: "canAdd env dataDir file g"
    and np: "getPostProcessor env = None"
  shows "\<exists>s'. add env dataDir file \<lparr> useStage = False, useCache = False \<rparr> s = Inr s'
           \<and> tracked env (data s') (heap s') (track env (Add dataDir file) g)"
proof -
  define ps where "ps = pathParts file"
  define fc where "fc = getFileContents env (pathJoin env dataDir file)"
  define F where "F = ingested g"
  define D where "D = set (levels g)"
  define F' where "F' = F @ [(file, fc)]"
  define o0 where "o0 = \<lparr> useStage = False, useCache = False \<rparr>"
  define root where "root = data s"
  define H where "H = heap s"
  have fne: "file \<noteq> []" and nj: "JSON_ITEMS \<notin> set ps" and fnew: "file \<notin> fst ` set F"
    and psD: "ps \<notin> D"
    and nofile: "\<forall>x \<in> set F. \<not> strict_prefix (pathParts (fst x)) ps"
    and pn: "plainName (pathJoin env dataDir file)" and pv: "plainVariant env file"
    and pl: "list_all plainName ps"
    and dj: "isData (json fc)" and dr: "isData (raw fc)"
    using ok
    by (auto simp: canAdd_def ps_def F_def D_def fc_def list_all_iff plainNames_def fileIsData_def
        pathParts_def)
  have nc: "useCache o0 \<longrightarrow> cache_get (cache s) ''file'' (pathJoin env dataDir file) = Inr None"
    by (simp add: o0_def)
  from fetch_fresh[OF np pn nc dj[unfolded fc_def] dr[unfolded fc_def]] obtain c h r j where
    fe: "fetch env dataDir file o0 s = Inr (r, j, s\<lparr>cache := c, heap := h\<rparr>)"
    and len: "length H \<le> length h" and old: "\<forall>a < length H. h ! a = H ! a"
    and tj: "truthy j = truthy (json fc)"
    and hc: "holds h (if truthy j then j else r) (documentOf fc file)"
    unfolding fc_def[symmetric] H_def[symmetric] by blast
  define content where "content = (if truthy j then j else r)"
  have pne: "ps \<noteq> []" by (simp add: ps_def pathParts_nonempty)
  have W1: "[] \<in> D" and W2: "\<And>L. L \<in> D \<Longrightarrow> JSON_ITEMS \<notin> set L"
    and W2p: "\<And>L. L \<in> D \<Longrightarrow> list_all plainName L"
    and W2': "\<And>L L'. L \<in> D \<Longrightarrow> prefix L' L \<Longrightarrow> L' \<in> D"
    and W3: "distinct (map fst F)"
    and W4: "\<And>x. x \<in> set F \<Longrightarrow> fst x \<noteq> [] \<and> JSON_ITEMS \<notin> set (pathParts (fst x))
            \<and> list_all plainName (pathParts (fst x)) \<and> plainVariant env (fst x)
            \<and> pathParts (fst x) \<notin> D
            \<and> (\<forall>L. strict_prefix L (pathParts (fst x)) \<longrightarrow> L \<in> D)
            \<and> holds H (slotOf root (fst x)) (documentOf (snd x) (fst x))"
    and I1: "\<And>L. L \<in> D \<Longrightarrow> indexIs (walk root L) (slotMain env root L F) (slotGroup env root L F)"
    and I2: "\<And>L k. L \<in> D \<Longrightarrow> k \<noteq> JSON_ITEMS \<Longrightarrow> L @ [k] \<notin> D
            \<Longrightarrow> L @ [k] \<notin> pathParts ` fst ` set F \<Longrightarrow> propOf (walk root L) k = Undefined"
    using inv unfolding tracked_def D_def F_def root_def H_def by blast+
  have absent: "walk root L = Undefined" if "strict_prefix L ps" "L \<notin> D" for L
    using tracked_absent[OF inv _ nj that(1)] nofile that(2) by (simp add: F_def D_def root_def)
  have rootdir: "isDir root" using I1[OF W1] by (simp add: indexIs_def)
  have free: "freeAlong root ps"
    unfolding freeAlong_def
  proof (intro conjI allI impI)
    show "isDir root" by (rule rootdir)
  next
    show "list_all plainName ps" by (rule pl)
  next
    fix L assume "strict_prefix L ps"
    then show "isDir (walk root L) \<or> walk root L = Undefined"
      using absent[of L] I1[of L] by (cases "L \<in> D") (auto simp: indexIs_def)
  qed
  from addWalk_ok[OF freeAlong_dirsAlong[OF free] pne nj pl pv, of content j] obtain root1 where
    r1: "addWalk env file content j root ps = Inr root1" "isDir root1"
    "propOf root1 JSON_ITEMS = propOf root JSON_ITEMS"
    and r1p: "dirsPresent root1 ps" and r1c: "foldl andProp root1 ps = content" by blast
  have iroot1: "indexIs root1 (slotMain env root [] F) (slotGroup env root [] F)"
    using indexIs_frame[OF _ r1(2,3)] I1[OF W1] by simp
  from addFileToJsonItems_index[OF iroot1 pv, of j] obtain root2 where
    r2: "addFileToJsonItems env root1 file j = Inr root2"
    "indexIs root2
       (if truthy j \<and> variantOf env file = None then slotMain env root [] F @ [j]
        else slotMain env root [] F)
       (\<lambda>v. if truthy j \<and> variantOf env file = Some v then slotGroup env root [] F v @ [j]
            else slotGroup env root [] F v)"
    "\<forall>k. k \<noteq> JSON_ITEMS \<longrightarrow> propOf root2 k = propOf root1 k" by blast
  define s' where "s' = s\<lparr>cache := c, heap := h, data := root2\<rparr>"
  have addres: "add env dataDir file o0 s = Inr s'"
    unfolding add_plain[OF fne nj[unfolded ps_def pathParts_def] np fe]
    using r1(1) r2(1)
    by (simp add: bindE_def s'_def content_def ps_def pathParts_def root_def o0_def)
  have w21: "walk root2 L = walk root1 L" if "L \<noteq> []" "JSON_ITEMS \<notin> set L" for L
    using walk_frame_dir[of root2 root1 L] r2(3) that by (cases L) auto
  have under_nil: "under [] file" using pne by (simp add: under_def ps_def strict_prefix_def)
  have slot_new: "slotOf root2 file = content"
    using w21[OF pne nj] walk_dirs[OF r1p] r1c by (simp add: slotOf_def ps_def)
  have slot_old: "slotOf root2 (fst x) = slotOf root (fst x)" if x: "x \<in> set F" for x
  proof -
    define qs where "qs = pathParts (fst x)"
    have qj: "JSON_ITEMS \<notin> set qs" and qD: "qs \<notin> D"
      and qpre: "\<And>L. strict_prefix L qs \<Longrightarrow> L \<in> D"
      using W4[OF x] by (auto simp: qs_def)
    have qne: "qs \<noteq> []" by (simp add: qs_def pathParts_nonempty)
    have "fst x \<noteq> file" using x fnew by auto
    then have neq: "qs \<noteq> ps" using pathParts_inj[of "fst x" "file"] by (auto simp: qs_def ps_def)
    have n1: "\<not> strict_prefix qs ps" using nofile x by (simp add: qs_def)
    have n2: "\<not> strict_prefix ps qs" using qpre psD by auto
    have par: "qs \<parallel> ps" using neq n1 n2 by (auto simp: parallel_def strict_prefix_def)
    have "walk root2 qs = walk root qs"
      using w21[OF qne qj] addWalk_parallel[OF free pne nj r1(1) par qj pv] by simp
    then show ?thesis by (simp add: slotOf_def qs_def)
  qed
  have so: "\<forall>x \<in> set F. slotOf root2 (fst x) = slotOf root (fst x)" using slot_old by blast
  \<comment> \<open>the bookkeeping after the add\<close>
  define D' where "D' = D \<union> set (properPrefixes ps)"
  have g': "track env (Add dataDir file) g = \<lparr> ingested = F', levels = levels g @ properPrefixes ps \<rparr>"
    by (simp add: F'_def F_def fc_def ps_def)
  have D'set: "set (levels g @ properPrefixes ps) = D'" by (simp add: D'_def D_def)
  have inD': "L \<in> D' \<longleftrightarrow> L \<in> D \<or> strict_prefix L ps" for L
    by (simp add: D'_def properPrefixes_iff)
  have nosub: "(\<forall>x \<in> set F. \<not> under L (fst x))" if "L \<notin> D" for L
  proof
    fix x assume "x \<in> set F"
    with W4[OF this] that show "\<not> under L (fst x)" by (auto simp: under_def)
  qed
  have empty_new: "slotMain env root L F = [] \<and> slotGroup env root L F = (\<lambda>v. [])" if "L \<notin> D" for L
    using nosub[OF that] by (auto simp: slotMain_def slotGroup_def filter_empty_conv)
  have cj: "truthy j \<Longrightarrow> content = j" by (simp add: content_def)
  have eqM: "slotMain env root2 L F' =
               (if truthy j \<and> variantOf env file = None then slotMain env root L F @ [j]
                else slotMain env root L F)" if "under L file" for L
    using that cj slots_cong(1)[OF so, of env L]
    by (simp add: F'_def slotMain_append slot_new tj)
  have eqG: "slotGroup env root2 L F' =
               (\<lambda>v. if truthy j \<and> variantOf env file = Some v then slotGroup env root L F v @ [j]
                    else slotGroup env root L F v)" if "under L file" for L
  proof (rule ext)
    fix v
    have "slotGroup env root2 L F v = slotGroup env root L F v"
      using slots_cong(2)[OF so, of env L] by simp
    then show "slotGroup env root2 L F' v =
               (if truthy j \<and> variantOf env file = Some v then slotGroup env root L F v @ [j]
                else slotGroup env root L F v)"
      using that cj by (simp add: F'_def slotGroup_append slot_new tj)
  qed
  have eqN: "slotMain env root2 L F' = slotMain env root L F
             \<and> slotGroup env root2 L F' = slotGroup env root L F"
    if "\<not> under L file" for L
    using that slots_cong[OF so, of env L]
    by (simp add: F'_def slotMain_append slotGroup_append)
  have J1: "indexIs (walk root2 L) (slotMain env root2 L F') (slotGroup env root2 L F')" if "L \<in> D'" for L
  proof (cases "L = []")
    case True
    show ?thesis using r2(2) True by (simp only: eqM[OF under_nil] eqG[OF under_nil] walk_Nil)
  next
    case False
    have Lj: "JSON_ITEMS \<notin> set L"
    proof (cases "L \<in> D")
      case True
      then show ?thesis by (rule W2)
    next
      case f: False
      with that have "strict_prefix L ps" by (simp add: inD')
      then have "set L \<subseteq> set ps" by (auto simp: strict_prefix_def prefix_def)
      then show ?thesis using nj by auto
    qed
    show ?thesis
    proof (cases "strict_prefix L ps")
      case True
      then have u: "under L file" by (simp add: under_def ps_def)
      have before: "indexIs (dirOrNew (walk root L)) (slotMain env root L F) (slotGroup env root L F)"
      proof (cases "L \<in> D")
        case True
        from I1[OF this] have "walk root L \<noteq> Undefined" by (auto simp: indexIs_def isDir_def)
        then show ?thesis using I1[OF True] by (simp add: dirOrNew_def)
      next
        case f: False
        then show ?thesis using absent[OF True f] empty_new[OF f] indexIs_skeleton
          by (simp add: dirOrNew_def)
      qed
      from addWalk_onpath[OF free pne nj r1(1) True False before pv]
      show ?thesis by (simp only: eqM[OF u] eqG[OF u] w21[OF False Lj])
    next
      case nsp: False
      with that have LD: "L \<in> D" by (simp add: inD')
      have "\<not> prefix L ps" using nsp psD LD by (auto simp: strict_prefix_def)
      moreover have "\<not> prefix ps L" using W2'[OF LD] psD by auto
      ultimately have par: "L \<parallel> ps" by (simp add: parallel_def)
      have nu: "\<not> under L file" using nsp by (simp add: under_def ps_def)
      have "walk root2 L = walk root L"
        using w21[OF False Lj] addWalk_parallel[OF free pne nj r1(1) par Lj pv] by simp
      then show ?thesis using I1[OF LD] eqN[OF nu] by simp
    qed
  qed
  have J2: "propOf (walk root2 L) k = Undefined"
    if "L \<in> D'" "k \<noteq> JSON_ITEMS" "L @ [k] \<notin> D'" "L @ [k] \<notin> pathParts ` fst ` set F'" for L k
  proof -
    have Lj: "JSON_ITEMS \<notin> set L"
    proof (cases "L \<in> D")
      case True
      then show ?thesis by (rule W2)
    next
      case f: False
      with that(1) have "strict_prefix L ps" by (simp add: inD')
      then have "set L \<subseteq> set ps" by (auto simp: strict_prefix_def prefix_def)
      then show ?thesis using nj by auto
    qed
    have Lkj: "JSON_ITEMS \<notin> set (L @ [k])" using Lj that(2) by auto
    have neq: "L @ [k] \<noteq> ps" using that(4) by (auto simp: F'_def ps_def)
    have nsp: "\<not> strict_prefix (L @ [k]) ps" using that(3) by (simp add: inD')
    have np1: "\<not> prefix (L @ [k]) ps" using neq nsp by (auto simp: strict_prefix_def)
    have np2: "\<not> prefix ps (L @ [k])"
    proof
      assume "prefix ps (L @ [k])"
      with neq have pl: "prefix ps L" by (auto simp: prefix_snoc)
      show False
      proof (cases "L \<in> D")
        case True
        from W2'[OF True pl] psD show False by simp
      next
        case False
        with that(1) have "strict_prefix L ps" by (simp add: inD')
        with pl show False by (auto simp: strict_prefix_def)
      qed
    qed
    have par: "(L @ [k]) \<parallel> ps" using np1 np2 by (simp add: parallel_def)
    have "walk root2 (L @ [k]) = walk root (L @ [k])"
      using w21[of "L @ [k]"] Lkj addWalk_parallel[OF free pne nj r1(1) par Lkj pv] by simp
    moreover have "walk root (L @ [k]) = Undefined"
    proof (cases "L \<in> D")
      case True
      have "L @ [k] \<notin> D" using that(3) by (simp add: inD')
      moreover have "L @ [k] \<notin> pathParts ` fst ` set F" using that(4) by (auto simp: F'_def)
      ultimately show ?thesis using I2[OF True that(2)] by (simp add: walk_append)
    next
      case False
      with that(1) have "strict_prefix L ps" by (simp add: inD')
      from absent[OF this False] show ?thesis by (simp add: walk_append)
    qed
    ultimately show ?thesis by (simp add: walk_append)
  qed
  have K1: "[] \<in> D'" using W1 by (simp add: D'_def)
  have K2: "JSON_ITEMS \<notin> set L \<and> list_all plainName L \<and> (\<forall>L'. prefix L' L \<longrightarrow> L' \<in> D')"
    if "L \<in> D'" for L
  proof (cases "L \<in> D")
    case True
    then show ?thesis using W2[OF True] W2p[OF True] W2'[OF True] by (auto simp: D'_def)
  next
    case False
    with that have sp: "strict_prefix L ps" by (simp add: inD')
    then have sub: "set L \<subseteq> set ps" by (auto simp: strict_prefix_def prefix_def)
    then have "JSON_ITEMS \<notin> set L" using nj by auto
    moreover have "list_all plainName L" using sub pl by (auto simp: list_all_iff)
    moreover have "L' \<in> D'" if "prefix L' L" for L'
      using that sp inD'[of L'] by (meson prefix_order.le_less_trans)
    ultimately show ?thesis by blast
  qed
  have K3: "distinct (map fst F')" using W3 fnew by (simp add: F'_def)
  have K4: "fst x \<noteq> [] \<and> JSON_ITEMS \<notin> set (pathParts (fst x))
            \<and> list_all plainName (pathParts (fst x)) \<and> plainVariant env (fst x)
            \<and> pathParts (fst x) \<notin> D'
            \<and> (\<forall>L. strict_prefix L (pathParts (fst x)) \<longrightarrow> L \<in> D')
            \<and> holds h (slotOf root2 (fst x)) (documentOf (snd x) (fst x))" if "x \<in> set F'" for x
  proof (cases "x \<in> set F")
    case True
    have "pathParts (fst x) \<notin> D'" using W4[OF True] nofile True by (auto simp: inD')
    moreover have "holds h (slotOf root2 (fst x)) (documentOf (snd x) (fst x))"
      using holds_mono[OF _ len old] W4[OF True] slot_old[OF True] by simp
    ultimately show ?thesis using W4[OF True] by (auto simp: D'_def)
  next
    case False
    with that have x: "x = (file, fc)" by (simp add: F'_def)
    have "ps \<notin> D'" using psD by (simp add: inD')
    moreover have "holds h (slotOf root2 file) (documentOf fc file)"
      using hc by (simp add: slot_new content_def)
    ultimately show ?thesis using x fne nj pl pv by (auto simp: ps_def inD')
  qed
  have "tracked env root2 h \<lparr> ingested = F', levels = levels g @ properPrefixes ps \<rparr>"
    unfolding tracked_def ingestion.simps D'set
  proof (intro conjI ballI allI impI)
    show "[] \<in> D'" by (rule K1)
  next
    fix L assume "L \<in> D'"
    then show "JSON_ITEMS \<notin> set L" using K2 by blast
  next
    fix L assume "L \<in> D'"
    then show "list_all plainName L" using K2 by blast
  next
    fix L L' assume "L \<in> D'" "prefix L' L"
    then show "L' \<in> D'" using K2 by blast
  next
    show "distinct (map fst F')" by (rule K3)
  next
    fix x assume "x \<in> set F'"
    then show "fst x \<noteq> []" using K4 by blast
  next
    fix x assume "x \<in> set F'"
    then show "JSON_ITEMS \<notin> set (pathParts (fst x))" using K4 by blast
  next
    fix x assume "x \<in> set F'"
    then show "list_all plainName (pathParts (fst x))" using K4 by blast
  next
    fix x assume "x \<in> set F'"
    then show "plainVariant env (fst x)" using K4 by blast
  next
    fix x assume "x \<in> set F'"
    then show "pathParts (fst x) \<notin> D'" using K4 by blast
  next
    fix x L assume "x \<in> set F'" "strict_prefix L (pathParts (fst x))"
    then show "L \<in> D'" using K4 by blast
  next
    fix x assume "x \<in> set F'"
    then show "holds h (slotOf root2 (fst x)) (documentOf (snd x) (fst x))" using K4 by blast
  next
    fix L assume "L \<in> D'"
    then show "indexIs (walk root2 L) (slotMain env root2 L F') (slotGroup env root2 L F')" by (rule J1)
  next
    fix L k assume "L \<in> D'"
      "k \<noteq> JSON_ITEMS \<and> L @ [k] \<notin> D' \<and> L @ [k] \<notin> pathParts ` fst ` set F'"
    then show "propOf (walk root2 L) k = Undefined" using J2 by blast
  qed
  then show ?thesis using addres g' by (auto simp: o0_def s'_def)
qed

lemma slots_after_remove:
  assumes d: "distinct (map fst F)" and m: "(file, fc) \<in> set F" and t: "truthy (json fc)"
    and hf: "\<forall>x \<in> set F. truthy (json (snd x))
               \<longrightarrow> (hasFilename h file (slotOf root (fst x)) \<longleftrightarrow> fst x = file)"
  shows "under L file \<Longrightarrow>
           slotMain env root L (filter (\<lambda>x. fst x \<noteq> file) F)
             = (if variantOf env file = None then removeFirst h file (slotMain env root L F)
                else slotMain env root L F)"
    and "under L file \<Longrightarrow>
           slotGroup env root L (filter (\<lambda>x. fst x \<noteq> file) F)
             = (\<lambda>v. if variantOf env file = Some v then removeFirst h file (slotGroup env root L F v)
                  else slotGroup env root L F v)"
    and "\<not> under L file \<Longrightarrow>
           slotMain env root L (filter (\<lambda>x. fst x \<noteq> file) F) = slotMain env root L F
           \<and> slotGroup env root L (filter (\<lambda>x. fst x \<noteq> file) F) = slotGroup env root L F"
proof -
  have same: "filter P (filter (\<lambda>x. fst x \<noteq> file) F) = filter P F"
    if "\<forall>x \<in> set F. P x \<longrightarrow> fst x \<noteq> file" for P :: "string \<times> fileContents \<Rightarrow> bool"
  proof -
    have "filter P (filter (\<lambda>x. fst x \<noteq> file) F) = filter (\<lambda>x. fst x \<noteq> file \<and> P x) F"
      by simp
    also have "\<dots> = filter P F" using that by (intro filter_cong) auto
    finally show ?thesis .
  qed
  {
    assume u: "under L file"
    show "slotMain env root L (filter (\<lambda>x. fst x \<noteq> file) F)
             = (if variantOf env file = None then removeFirst h file (slotMain env root L F)
                else slotMain env root L F)"
    proof (cases "variantOf env file")
      case None
      let ?P = "\<lambda>x. truthy (json (snd x)) \<and> variantOf env (fst x) = None \<and> under L (fst x)"
      have p: "?P (file, fc)" using t None u by simp
      have hf': "\<forall>x \<in> set F. ?P x \<longrightarrow> (hasFilename h file (slotOf root (fst x)) \<longleftrightarrow> fst x = file)"
        using hf by blast
      from removeFirst_filter[OF d m, of ?P h "\<lambda>x. slotOf root (fst x)", OF p hf']
      show ?thesis using None by (simp add: slotMain_def)
    next
      case (Some v)
      have "filter (\<lambda>x. truthy (json (snd x)) \<and> variantOf env (fst x) = None \<and> under L (fst x))
              (filter (\<lambda>x. fst x \<noteq> file) F)
            = filter (\<lambda>x. truthy (json (snd x)) \<and> variantOf env (fst x) = None \<and> under L (fst x)) F"
        by (rule same) (use Some in auto)
      then show ?thesis unfolding slotMain_def using Some by (simp only: option.distinct if_False)
    qed
    show "slotGroup env root L (filter (\<lambda>x. fst x \<noteq> file) F)
             = (\<lambda>v. if variantOf env file = Some v then removeFirst h file (slotGroup env root L F v)
                  else slotGroup env root L F v)"
    proof (rule ext)
      fix v
      show "slotGroup env root L (filter (\<lambda>x. fst x \<noteq> file) F) v
             = (if variantOf env file = Some v then removeFirst h file (slotGroup env root L F v)
                  else slotGroup env root L F v)"
      proof (cases "variantOf env file = Some v")
        case True
        let ?P = "\<lambda>x. truthy (json (snd x)) \<and> variantOf env (fst x) = Some v \<and> under L (fst x)"
        have p: "?P (file, fc)" using t True u by simp
        have hf': "\<forall>x \<in> set F. ?P x \<longrightarrow> (hasFilename h file (slotOf root (fst x)) \<longleftrightarrow> fst x = file)"
          using hf by blast
        from removeFirst_filter[OF d m, of ?P h "\<lambda>x. slotOf root (fst x)", OF p hf']
        show ?thesis using True by (simp add: slotGroup_def)
      next
        case False
        have "filter (\<lambda>x. truthy (json (snd x)) \<and> variantOf env (fst x) = Some v \<and> under L (fst x))
              (filter (\<lambda>x. fst x \<noteq> file) F)
            = filter (\<lambda>x. truthy (json (snd x)) \<and> variantOf env (fst x) = Some v \<and> under L (fst x)) F"
          by (rule same) (use False in auto)
        then show ?thesis unfolding slotGroup_def using False by (simp only: if_False)
      qed
    qed
  }
  {
    assume nu: "\<not> under L file"
    have "filter (\<lambda>x. truthy (json (snd x)) \<and> variantOf env (fst x) = None \<and> under L (fst x))
              (filter (\<lambda>x. fst x \<noteq> file) F)
            = filter (\<lambda>x. truthy (json (snd x)) \<and> variantOf env (fst x) = None \<and> under L (fst x)) F"
      by (rule same) (use nu in auto)
    then have a: "slotMain env root L (filter (\<lambda>x. fst x \<noteq> file) F) = slotMain env root L F"
      unfolding slotMain_def by (simp only:)
    have "filter (\<lambda>x. truthy (json (snd x)) \<and> variantOf env (fst x) = Some v \<and> under L (fst x))
              (filter (\<lambda>x. fst x \<noteq> file) F)
            = filter (\<lambda>x. truthy (json (snd x)) \<and> variantOf env (fst x) = Some v \<and> under L (fst x)) F" for v
      by (rule same) (use nu in auto)
    then have b: "slotGroup env root L (filter (\<lambda>x. fst x \<noteq> file) F) v = slotGroup env root L F v" for v
      unfolding slotGroup_def by (simp only:)
    from a b show "slotMain env root L (filter (\<lambda>x. fst x \<noteq> file) F) = slotMain env root L F
           \<and> slotGroup env root L (filter (\<lambda>x. fst x \<noteq> file) F) = slotGroup env root L F"
      by auto
  }
qed

lemma tracked_remove:
  assumes inv: "tracked env (data s) (heap s) g" and ok: "canRemove file g"
    and np: "getPostProcessor env = None"
  shows "\<exists>s'. remove env file s = Inr s'
           \<and> tracked env (data s') (heap s') (track env (Remove file) g)"
proof -
  define ps where "ps = pathParts file"
  define F where "F = ingested g"
  define D where "D = set (levels g)"
  define F' where "F' = filter (\<lambda>x. fst x \<noteq> file) F"
  define root where "root = data s"
  define H where "H = heap s"
  from ok obtain fc where mo: "map_of F file = Some fc" and ixf: "indexable (json fc)"
    by (auto simp: canRemove_def F_def split: option.splits)
  have m: "(file, fc) \<in> set F" using mo by (rule map_of_SomeD)
  have tf: "truthy (json fc)" using ixf by (rule indexable_truthy)
  have W1: "[] \<in> D" and W2: "\<And>L. L \<in> D \<Longrightarrow> JSON_ITEMS \<notin> set L"
    and W2p: "\<And>L. L \<in> D \<Longrightarrow> list_all plainName L"
    and W2': "\<And>L L'. L \<in> D \<Longrightarrow> prefix L' L \<Longrightarrow> L' \<in> D"
    and W3: "distinct (map fst F)"
    and W4: "\<And>x. x \<in> set F \<Longrightarrow> fst x \<noteq> [] \<and> JSON_ITEMS \<notin> set (pathParts (fst x))
            \<and> list_all plainName (pathParts (fst x)) \<and> plainVariant env (fst x)
            \<and> pathParts (fst x) \<notin> D
            \<and> (\<forall>L. strict_prefix L (pathParts (fst x)) \<longrightarrow> L \<in> D)
            \<and> holds H (slotOf root (fst x)) (documentOf (snd x) (fst x))"
    and I1: "\<And>L. L \<in> D \<Longrightarrow> indexIs (walk root L) (slotMain env root L F) (slotGroup env root L F)"
    and I2: "\<And>L k. L \<in> D \<Longrightarrow> k \<noteq> JSON_ITEMS \<Longrightarrow> L @ [k] \<notin> D
            \<Longrightarrow> L @ [k] \<notin> pathParts ` fst ` set F \<Longrightarrow> propOf (walk root L) k = Undefined"
    using inv unfolding tracked_def D_def F_def root_def H_def by blast+
  have nj: "JSON_ITEMS \<notin> set ps" and psD: "ps \<notin> D"
    and preD: "\<And>L. strict_prefix L ps \<Longrightarrow> L \<in> D"
    and pl: "list_all plainName ps" and pv: "plainVariant env file"
    using W4[OF m] by (auto simp: ps_def)
  have pne: "ps \<noteq> []" by (simp add: ps_def pathParts_nonempty)
  have present: "presentAlong root ps"
    unfolding presentAlong_def using preD I1 pl by (auto simp: indexIs_def)
  from removeWalk_ok[OF presentAlong_dirsPresent[OF present] pne nj pl pv, of H] obtain root1 where
    r1: "removeWalk env H file root ps = Inr root1" "isDir root1"
    "propOf root1 JSON_ITEMS = propOf root JSON_ITEMS" by blast
  have iroot1: "indexIs root1 (slotMain env root [] F) (slotGroup env root [] F)"
    using indexIs_frame[OF _ r1(2,3)] I1[OF W1] by simp
  from removeFileFromJsonItems_index[OF iroot1 pv, of H] obtain root2 where
    r2: "removeFileFromJsonItems env H root1 file = Inr root2"
    "indexIs root2
       (if variantOf env file = None then removeFirst H file (slotMain env root [] F)
        else slotMain env root [] F)
       (\<lambda>v. if variantOf env file = Some v then removeFirst H file (slotGroup env root [] F v)
            else slotGroup env root [] F v)"
    "\<forall>k. k \<noteq> JSON_ITEMS \<longrightarrow> propOf root2 k = propOf root1 k" by blast
  have remres: "remove env file s = Inr (s\<lparr>data := root2\<rparr>)"
    unfolding remove_plain[OF np]
    using r1(1) r2(1) by (simp add: bindE_def ps_def pathParts_def root_def H_def)
  have w21: "walk root2 L = walk root1 L" if "L \<noteq> []" "JSON_ITEMS \<notin> set L" for L
    using walk_frame_dir[of root2 root1 L] r2(3) that by (cases L) auto
  have under_nil: "under [] file" using pne by (simp add: under_def ps_def strict_prefix_def)
  have hf: "\<forall>x \<in> set F. truthy (json (snd x))
               \<longrightarrow> (hasFilename H file (slotOf root (fst x)) \<longleftrightarrow> fst x = file)"
  proof (intro ballI impI)
    fix x assume x: "x \<in> set F" and tx: "truthy (json (snd x))"
    have "holds H (slotOf root (fst x)) (withFilename (json (snd x)) (fst x))"
      using W4[OF x] tx by (simp add: documentOf_def)
    from hasFilename_holds[OF this, of "file"]
    have a: "hasFilename H file (slotOf root (fst x)) \<longleftrightarrow> (indexable (json (snd x)) \<and> fst x = file)" .
    show "hasFilename H file (slotOf root (fst x)) \<longleftrightarrow> fst x = file"
    proof (cases "fst x = file")
      case True
      have "x = (file, fc)"
      proof -
        have "map_of F (fst x) = Some (snd x)" using W3 x by (simp add: map_of_is_SomeI)
        moreover have "map_of F file = Some fc" using W3 m by (simp add: map_of_is_SomeI)
        ultimately show ?thesis using True by (metis option.inject prod.collapse)
      qed
      then show ?thesis using a ixf by simp
    next
      case False
      then show ?thesis using a by simp
    qed
  qed
  note ex = slots_after_remove[OF W3 m tf hf, of _ env, folded F'_def]
  have g': "track env (Remove file) g = \<lparr> ingested = F', levels = levels g \<rparr>"
    by (simp add: F'_def F_def)
  have sub: "set F' \<subseteq> set F" by (auto simp: F'_def)
  have slot_old: "slotOf root2 (fst x) = slotOf root (fst x)" if x': "x \<in> set F'" for x
  proof -
    have x: "x \<in> set F" and xf: "fst x \<noteq> file" using x' by (auto simp: F'_def)
    define qs where "qs = pathParts (fst x)"
    have qj: "JSON_ITEMS \<notin> set qs" and qD: "qs \<notin> D"
      and qpre: "\<And>L. strict_prefix L qs \<Longrightarrow> L \<in> D"
      using W4[OF x] by (auto simp: qs_def)
    have qne: "qs \<noteq> []" by (simp add: qs_def pathParts_nonempty)
    have neq: "qs \<noteq> ps" using xf pathParts_inj[of "fst x" "file"] by (auto simp: qs_def ps_def)
    have n1: "\<not> strict_prefix qs ps" using preD qD by auto
    have n2: "\<not> strict_prefix ps qs" using qpre psD by auto
    have par: "qs \<parallel> ps" using neq n1 n2 by (auto simp: parallel_def strict_prefix_def)
    have "walk root2 qs = walk root qs"
      using w21[OF qne qj] removeWalk_parallel[OF present pne nj r1(1) par qj pv] by simp
    then show ?thesis by (simp add: slotOf_def qs_def)
  qed
  have so: "\<forall>x \<in> set F'. slotOf root2 (fst x) = slotOf root (fst x)" using slot_old by blast
  note sc = slots_cong[OF so, of env]
  have J1: "indexIs (walk root2 L) (slotMain env root2 L F') (slotGroup env root2 L F')" if "L \<in> D" for L
  proof (cases "L = []")
    case True
    show ?thesis using r2(2) True by (simp only: sc ex(1)[OF under_nil] ex(2)[OF under_nil] walk_Nil)
  next
    case False
    have Lj: "JSON_ITEMS \<notin> set L" using that by (rule W2)
    show ?thesis
    proof (cases "strict_prefix L ps")
      case True
      then have u: "under L file" by (simp add: under_def ps_def)
      from removeWalk_effect[OF present pne nj r1(1) pv] True False I1[OF that]
      have "indexIs (walk root1 L)
              (if variantOf env file = None then removeFirst H file (slotMain env root L F)
               else slotMain env root L F)
              (\<lambda>v. if variantOf env file = Some v then removeFirst H file (slotGroup env root L F v)
                   else slotGroup env root L F v)"
        by blast
      then show ?thesis by (simp only: sc ex(1)[OF u] ex(2)[OF u] w21[OF False Lj])
    next
      case nsp: False
      have "\<not> prefix L ps" using nsp psD that by (auto simp: strict_prefix_def)
      moreover have "\<not> prefix ps L" using W2'[OF that] psD by auto
      ultimately have par: "L \<parallel> ps" by (simp add: parallel_def)
      have nu: "\<not> under L file" using nsp by (simp add: under_def ps_def)
      have "walk root2 L = walk root L"
        using w21[OF False Lj] removeWalk_parallel[OF present pne nj r1(1) par Lj pv] by simp
      then show ?thesis using I1[OF that] ex(3)[OF nu] sc by simp
    qed
  qed
  have J2: "propOf (walk root2 L) k = Undefined"
    if "L \<in> D" "k \<noteq> JSON_ITEMS" "L @ [k] \<notin> D" "L @ [k] \<notin> pathParts ` fst ` set F'" for L k
  proof -
    have Lkj: "JSON_ITEMS \<notin> set (L @ [k])" using W2[OF that(1)] that(2) by auto
    have w: "walk root2 (L @ [k]) = walk root1 (L @ [k])" using w21[of "L @ [k]"] Lkj by simp
    show ?thesis
    proof (cases "L @ [k] = ps")
      case True
      from removeWalk_effect[OF present pne nj r1(1) pv] have "walk root1 ps = Undefined" by blast
      with w True have "walk root2 (L @ [k]) = Undefined" by simp
      then show ?thesis by (simp add: walk_append)
    next
      case False
      have nF: "L @ [k] \<notin> pathParts ` fst ` set F"
      proof
        assume "L @ [k] \<in> pathParts ` fst ` set F"
        then obtain x where x: "x \<in> set F" "pathParts (fst x) = L @ [k]" by auto
        with False have "fst x \<noteq> file" by (auto simp: ps_def)
        with x have "x \<in> set F'" by (simp add: F'_def)
        with x(2) that(4) show False by force
      qed
      have u: "walk root (L @ [k]) = Undefined"
        using I2[OF that(1,2,3) nF] by (simp add: walk_append)
      have np1: "\<not> prefix (L @ [k]) ps" using False preD that(3) by (auto simp: strict_prefix_def)
      have np2: "\<not> prefix ps (L @ [k])"
      proof
        assume "prefix ps (L @ [k])"
        with False have "prefix ps L" by (auto simp: prefix_snoc)
        from W2'[OF that(1) this] psD show False by simp
      qed
      have par: "(L @ [k]) \<parallel> ps" using np1 np2 by (simp add: parallel_def)
      have "walk root1 (L @ [k]) = walk root (L @ [k])"
        using removeWalk_parallel[OF present pne nj r1(1) par Lkj pv] .
      with w u show ?thesis by (simp add: walk_append)
    qed
  qed
  have K3: "distinct (map fst F')" using W3 by (simp add: F'_def distinct_map_filter)
  have K4: "holds H (slotOf root2 (fst x)) (documentOf (snd x) (fst x))" if "x \<in> set F'" for x
    using W4[of x] sub that slot_old[OF that] by auto
  have "tracked env root2 H \<lparr> ingested = F', levels = levels g \<rparr>"
    unfolding tracked_def ingestion.simps D_def[symmetric]
  proof (intro conjI ballI allI impI)
    show "[] \<in> D" by (rule W1)
  next
    fix L assume "L \<in> D"
    then show "JSON_ITEMS \<notin> set L" by (rule W2)
  next
    fix L assume "L \<in> D"
    then show "list_all plainName L" by (rule W2p)
  next
    fix L L' assume "L \<in> D" "prefix L' L"
    then show "L' \<in> D" by (rule W2')
  next
    show "distinct (map fst F')" by (rule K3)
  next
    fix x assume "x \<in> set F'"
    then show "fst x \<noteq> []" using W4 sub by blast
  next
    fix x assume "x \<in> set F'"
    then show "JSON_ITEMS \<notin> set (pathParts (fst x))" using W4 sub by blast
  next
    fix x assume "x \<in> set F'"
    then show "list_all plainName (pathParts (fst x))" using W4 sub by blast
  next
    fix x assume "x \<in> set F'"
    then show "plainVariant env (fst x)" using W4 sub by blast
  next
    fix x assume "x \<in> set F'"
    then show "pathParts (fst x) \<notin> D" using W4 sub by blast
  next
    fix x L assume "x \<in> set F'" "strict_prefix L (pathParts (fst x))"
    then show "L \<in> D" using W4 sub by blast
  next
    fix x assume "x \<in> set F'"
    then show "holds H (slotOf root2 (fst x)) (documentOf (snd x) (fst x))" by (rule K4)
  next
    fix L assume "L \<in> D"
    then show "indexIs (walk root2 L) (slotMain env root2 L F') (slotGroup env root2 L F')" by (rule J1)
  next
    fix L k assume "L \<in> D"
      "k \<noteq> JSON_ITEMS \<and> L @ [k] \<notin> D \<and> L @ [k] \<notin> pathParts ` fst ` set F'"
    then show "propOf (walk root2 L) k = Undefined" using J2 by blast
  qed
  then show ?thesis using remres g' by (auto simp: H_def)
qed

lemma tracked_operations:
  assumes "getPostProcessor env = None"
  shows "tracked env (data s) (heap s) g \<Longrightarrow> allowedAll env ops g
           \<Longrightarrow> \<exists>s'. performAll env ops s = Inr s'
                  \<and> tracked env (data s') (heap s') (trackAll env ops g)"
proof (induction ops arbitrary: s g)
  case Nil
  then show ?case by simp
next
  case (Cons x xs)
  have "\<exists>s1. perform env x s = Inr s1 \<and> tracked env (data s1) (heap s1) (track env x g)"
  proof (cases x)
    case (Add dataDir fl)
    then show ?thesis using tracked_add[OF Cons.prems(1) _ assms, of dataDir fl] Cons.prems(2)
      by simp
  next
    case (Remove fl)
    then show ?thesis using tracked_remove[OF Cons.prems(1) _ assms, of fl] Cons.prems(2)
      by simp
  qed
  then obtain s1 where s1: "perform env x s = Inr s1"
    "tracked env (data s1) (heap s1) (track env x g)"
    by blast
  from Cons.IH[OF s1(2)] Cons.prems(2) obtain s' where
    "performAll env xs s1 = Inr s'" "tracked env (data s') (heap s') (trackAll env xs (track env x g))"
    by auto
  then show ?case using s1(1) by (simp add: bindE_def)
qed

text \<open>The sequences of an index as a reader sees them are the documents by value.\<close>

lemma tracked_shown:
  assumes "tracked env root h g" "L \<in> set (levels g)"
  shows "isDir (walk root L)"
    and "shown h (mainVal (walk root L)) = Arr (expectedMain env L (ingested g)) []"
    and "shown h (groupVal (walk root L) v) = groupShown (expectedGroup env L (ingested g) v)"
proof -
  have ix: "indexIs (walk root L) (slotMain env root L (ingested g)) (slotGroup env root L (ingested g))"
    using assms unfolding tracked_def by blast
  have d: "deref h (slotOf root (fst x)) = insertedJson (snd x) (fst x)"
    if "x \<in> set (ingested g)" "truthy (json (snd x))" for x
  proof -
    have "holds h (slotOf root (fst x)) (documentOf (snd x) (fst x))"
      using assms(1) that(1) unfolding tracked_def by blast
    from holds_deref[OF this] that(2) show ?thesis by (simp add: documentOf_def insertedJson_def)
  qed
  have a: "map (deref h) (slotMain env root L (ingested g)) = expectedMain env L (ingested g)"
    unfolding slotMain_def expectedMain_def map_map using d by (intro map_cong) auto
  have b: "map (deref h) (slotGroup env root L (ingested g) v) = expectedGroup env L (ingested g) v"
    unfolding slotGroup_def expectedGroup_def map_map using d by (intro map_cong) auto
  show "isDir (walk root L)" using ix by (simp add: indexIs_def)
  show "shown h (mainVal (walk root L)) = Arr (expectedMain env L (ingested g)) []"
    using ix a by (simp add: indexIs_def)
  have "groupVal (walk root L) v = groupShown (slotGroup env root L (ingested g) v)"
    using ix by (simp add: indexIs_def)
  then show "shown h (groupVal (walk root L) v) = groupShown (expectedGroup env L (ingested g) v)"
    using b by (auto simp: groupShown_def)
qed

text \<open>
  Claim C2, as stated, fails for a document without parsed contents: a raw file is
  ingested and read back, it is no variant, and the \<^verbatim>\<open>main\<close> sequence of the root and of
  its directory stay empty, since \<^verbatim>\<open>addFileToJsonItems\<close> only takes parsed contents.
\<close>

theorem raw_document_not_indexed_counterexample:
  "add exampleEnv ''data'' ''en/robots.txt'' liveOptions emptyStore = Inr rawStore
   \<and> get rawStore ''en/robots.txt'' = Inr (Str ''User-agent: *'')
   \<and> variantOf exampleEnv ''en/robots.txt'' = None
   \<and> mainVal (data rawStore) = Arr [] []
   \<and> mainVal (walk (data rawStore) [''en'']) = Arr [] []"
  by code_simp

text \<open>
  Claim C2, amended. With no post-processor, start from the empty store and run any
  sequence of allowed operations (see \<open>canAdd\<close> and \<open>canRemove\<close>: an \<^verbatim>\<open>add\<close> of a file that
  holds data, under names none of which is that of a member of \<^verbatim>\<open>Object.prototype\<close>, and
  a \<^verbatim>\<open>remove\<close> of an ingested file whose parsed contents are an object or an array). Then
  every operation returns, and at every directory level of the tree the index shows
  exactly the parsed documents that are ingested at or below the level at that moment:
  \<^verbatim>\<open>main\<close> is the array of those that are no variant, in ingestion order; the own
  property \<open>v\<close> of \<^verbatim>\<open>variants\<close> is the array of those of variant \<open>v\<close>, and \<^verbatim>\<open>variants\<close> has no
  such property when there is none. So a removed document is gone from the index of each
  level it was inserted into, and the variant entry goes with its last document.
\<close>

theorem index_holds_parsed_documents:
  assumes "getPostProcessor env = None" "allowedAll env ops emptyIngestion"
  shows "\<exists>s. performAll env ops emptyStore = Inr s
           \<and> (\<forall>L \<in> set (levels (trackAll env ops emptyIngestion)).
                 isDir (walk (data s) L)
                 \<and> shown (heap s) (mainVal (walk (data s) L))
                     = Arr (expectedMain env L (ingested (trackAll env ops emptyIngestion))) []
                 \<and> (\<forall>v. shown (heap s) (groupVal (walk (data s) L) v)
                     = groupShown (expectedGroup env L (ingested (trackAll env ops emptyIngestion)) v)))"
proof -
  have "tracked env (data emptyStore) (heap emptyStore) emptyIngestion"
    using tracked_empty by (simp add: emptyStore_def)
  from tracked_operations[OF assms(1) this assms(2)] obtain s where
    s: "performAll env ops emptyStore = Inr s"
    "tracked env (data s) (heap s) (trackAll env ops emptyIngestion)" by blast
  show ?thesis using s(1) tracked_shown[OF s(2)] by blast
qed

theorem index_holds_parsed_documents_witness:
  "allowedAll exampleEnv exampleOperations emptyIngestion
   \<and> (\<exists>s. performAll exampleEnv exampleOperations emptyStore = Inr s
         \<and> shown (heap s) (mainVal (walk (data s) [''en'']))
             = Arr [Obj [(''title'', Str ''one''), (''__FILENAME__'', Str ''en/article/1.json'')]] []
         \<and> shown (heap s) (groupVal (walk (data s) [''en'']) ''teaser'') = Undefined
         \<and> get s ''en/robots.txt'' = Inr (Str ''User-agent: *''))"
proof -
  have h1: "getPostProcessor exampleEnv = None" by (simp add: exampleEnv_def)
  have h2: "allowedAll exampleEnv exampleOperations emptyIngestion" by code_simp
  have l: "[''en''] \<in> set (levels (trackAll exampleEnv exampleOperations emptyIngestion))"
    by code_simp
  have m: "expectedMain exampleEnv [''en''] (ingested (trackAll exampleEnv exampleOperations emptyIngestion))
             = [Obj [(''title'', Str ''one''), (''__FILENAME__'', Str ''en/article/1.json'')]]"
    by code_simp
  have g: "groupShown (expectedGroup exampleEnv [''en'']
              (ingested (trackAll exampleEnv exampleOperations emptyIngestion)) ''teaser'') = Undefined"
    by code_simp
  have r: "(case performAll exampleEnv exampleOperations emptyStore of
              Inl e \<Rightarrow> False | Inr s \<Rightarrow> get s ''en/robots.txt'' = Inr (Str ''User-agent: *''))"
    by code_simp
  from index_holds_parsed_documents[OF h1 h2] obtain s where
    s: "performAll exampleEnv exampleOperations emptyStore = Inr s"
    "\<forall>L \<in> set (levels (trackAll exampleEnv exampleOperations emptyIngestion)).
                 isDir (walk (data s) L)
                 \<and> shown (heap s) (mainVal (walk (data s) L))
                     = Arr (expectedMain exampleEnv L (ingested (trackAll exampleEnv exampleOperations emptyIngestion))) []
                 \<and> (\<forall>v. shown (heap s) (groupVal (walk (data s) L) v)
                     = groupShown (expectedGroup exampleEnv L (ingested (trackAll exampleEnv exampleOperations emptyIngestion)) v))"
    by blast
  from s(2) l have "shown (heap s) (mainVal (walk (data s) [''en'']))
                     = Arr (expectedMain exampleEnv [''en''] (ingested (trackAll exampleEnv exampleOperations emptyIngestion))) []"
    and "shown (heap s) (groupVal (walk (data s) [''en'']) ''teaser'')
                     = groupShown (expectedGroup exampleEnv [''en''] (ingested (trackAll exampleEnv exampleOperations emptyIngestion)) ''teaser'')"
    by blast+
  with m g s(1) r h2 show ?thesis by auto
qed

section \<open>Properties of the module registry\<close>

text \<open>
  Claim C9, as stated, fails in two ways. Where the module can be required but exports a
  falsy value, \<^verbatim>\<open>load\<close> has stored the export before it tests it, so it throws and the
  registry holds an entry for the path, the falsy export. And for a path that is the name
  of a member of \<^verbatim>\<open>Object.prototype\<close>, \<^verbatim>\<open>get\<close> finds that member in the empty registry: it
  returns neither a cached handle nor the result of a load.
\<close>

theorem load_failure_entry_counterexample:
  "fst (load exampleLoader ''query/empty.js'' staleRegistry)
     = Inl (NotLoaded (notLoadedMessage ''query/empty.js''))
   \<and> map_of (modules (snd (load exampleLoader ''query/empty.js'' staleRegistry))) ''query/empty.js''
     = Some None
   \<and> getModule exampleLoader ''constructor'' \<lparr> modules = [], traced = [] \<rparr>
     = (Inr (Member ''constructor''), \<lparr> modules = [], traced = [] \<rparr>)
   \<and> fst (load exampleLoader ''constructor'' \<lparr> modules = [], traced = [] \<rparr>) = Inl RequireFailed"
  by code_simp

text \<open>
  Claim C9, amended. For a module path that is not the name of a member of
  \<^verbatim>\<open>Object.prototype\<close>, \<^verbatim>\<open>get(path)\<close> returns the cached handle when the registry holds a
  truthy one for the path and otherwise performs \<^verbatim>\<open>load(path)\<close>. Whenever \<^verbatim>\<open>load(path)\<close>
  fails, the prior handle is gone: either \<^verbatim>\<open>require\<close> threw, the error is the one it threw
  and the registry holds no entry for the path, or the module exported a falsy value and
  the registry holds that value for the path. In both cases a later \<^verbatim>\<open>load\<close> or \<^verbatim>\<open>get\<close> of
  the path does what the failed \<^verbatim>\<open>load\<close> did.
\<close>

theorem get_cached_or_load:
  assumes "plainName modulePath"
  shows "getModule ld modulePath r =
     (case map_of (modules r) modulePath of
        Some (Some h) \<Rightarrow> (Inr (Handle h), r)
      | _ \<Rightarrow> loadHandle ld modulePath r)
   \<and> (\<forall>e. fst (load ld modulePath r) = Inl e \<longrightarrow>
         (case require ld modulePath of
            Inl e' \<Rightarrow> e = e' \<and> map_of (modules (snd (load ld modulePath r))) modulePath = None
          | Inr v \<Rightarrow> v = None
                     \<and> map_of (modules (snd (load ld modulePath r))) modulePath = Some None)
         \<and> load ld modulePath (snd (load ld modulePath r)) = load ld modulePath r
         \<and> getModule ld modulePath (snd (load ld modulePath r)) = loadHandle ld modulePath r)"
proof -
  have np: "modulePath \<noteq> ''__proto__''" using assms by (rule plain_not_proto)
  have g: "getModule ld modulePath r =
     (case map_of (modules r) modulePath of
        Some (Some h) \<Rightarrow> (Inr (Handle h), r)
      | _ \<Rightarrow> loadHandle ld modulePath r)"
    using assms by (simp add: getModule_def split: option.splits)
  have d: "AList.delete modulePath (AList.delete modulePath xs) = AList.delete modulePath xs" for xs :: "(string \<times> 'a option) list"
    by (simp add: delete_idem)
  have u: "AList.delete modulePath (AList.update modulePath v xs) = AList.delete modulePath xs" for xs :: "(string \<times> 'a option) list" and v
    by (simp add: delete_update_same)
  have l: "(case require ld modulePath of
            Inl e' \<Rightarrow> e = e' \<and> map_of (modules (snd (load ld modulePath r))) modulePath = None
          | Inr v \<Rightarrow> v = None
                     \<and> map_of (modules (snd (load ld modulePath r))) modulePath = Some None)
         \<and> load ld modulePath (snd (load ld modulePath r)) = load ld modulePath r"
    if "fst (load ld modulePath r) = Inl e" for e
    using that np
    by (cases "require ld modulePath")
       (auto simp: load_def Let_def update_conv' delete_conv' d u split: option.splits)
  have "getModule ld modulePath (snd (load ld modulePath r)) = loadHandle ld modulePath r"
    if f: "fst (load ld modulePath r) = Inl e" for e
  proof -
    have m: "map_of (modules (snd (load ld modulePath r))) modulePath = None
             \<or> map_of (modules (snd (load ld modulePath r))) modulePath = Some None"
      using l[OF f] by (cases "require ld modulePath") auto
    have "getModule ld modulePath (snd (load ld modulePath r))
            = loadHandle ld modulePath (snd (load ld modulePath r))"
      using m assms by (auto simp: getModule_def)
    also have "\<dots> = loadHandle ld modulePath r"
    proof -
      have "load ld modulePath (snd (load ld modulePath r)) = load ld modulePath r"
        using l[OF f] by blast
      then show ?thesis by (simp only: loadHandle_def)
    qed
    finally show ?thesis .
  qed
  with g l show ?thesis by blast
qed

theorem get_cached_or_load_witness:
  "plainName ''query/gone.js''
   \<and> fst (load exampleLoader ''query/gone.js'' staleRegistry) = Inl RequireFailed
   \<and> map_of (modules staleRegistry) ''query/gone.js'' = Some (Some 8)
   \<and> map_of (modules (snd (load exampleLoader ''query/gone.js'' staleRegistry))) ''query/gone.js'' = None
   \<and> getModule exampleLoader ''query/gone.js'' staleRegistry = (Inr (Handle 8), staleRegistry)"
proof -
  have p: "plainName ''query/gone.js''" by code_simp
  have f: "fst (load exampleLoader ''query/gone.js'' staleRegistry) = Inl RequireFailed"
    by code_simp
  have r: "require exampleLoader ''query/gone.js'' = Inl RequireFailed"
    by (simp add: exampleLoader_def)
  have m: "map_of (modules staleRegistry) ''query/gone.js'' = Some (Some 8)"
    by (simp add: staleRegistry_def)
  from get_cached_or_load[OF p, of exampleLoader staleRegistry] f r m p
  show ?thesis by simp
qed

section \<open>Properties of the include resolver\<close>

subsection \<open>Static pass\<close>

lemma endsWith_same_length:
  "endsWith s a \<Longrightarrow> endsWith s b \<Longrightarrow> length a = length b \<Longrightarrow> a = b"
  by (auto simp: endsWith_def)

lemma static_suffixes_exclusive:
  "\<not> (endsWith k ''configinclude'' \<and> endsWith k ''entityinclude'')"
  "\<not> (endsWith k ''configinclude'' \<and> endsWith k ''custominclude'')"
  "\<not> (endsWith k ''configinclude'' \<and> endsWith k ''localeinclude'')"
  "\<not> (endsWith k ''entityinclude'' \<and> endsWith k ''custominclude'')"
  "\<not> (endsWith k ''entityinclude'' \<and> endsWith k ''localeinclude'')"
  "\<not> (endsWith k ''custominclude'' \<and> endsWith k ''localeinclude'')"
  using endsWith_same_length[of k "''configinclude''" "''entityinclude''"]
        endsWith_same_length[of k "''configinclude''" "''custominclude''"]
        endsWith_same_length[of k "''configinclude''" "''localeinclude''"]
        endsWith_same_length[of k "''entityinclude''" "''custominclude''"]
        endsWith_same_length[of k "''entityinclude''" "''localeinclude''"]
        endsWith_same_length[of k "''custominclude''" "''localeinclude''"]
  by auto

lemma invoke_calls:
  "invoke rs st d m k p = Inr p' \<Longrightarrow> invoked p' = invoked p @ [(st, k)]"
  by (auto simp: invoke_def bindE_def split: sum.splits)

lemma bindE_Inr: "bindE m Inr = m"
  by (cases m) (auto simp: bindE_def)

lemma staticInclude_cases:
  "staticInclude rs includePath p =
     (let key = last (split_on CHR ''.'' includePath);
          mountPointPath = butlast (split_on CHR ''.'' includePath);
          includeData = storeLookup rs (getObjectValue rs (document p) includePath)
      in if key = [] then Inr p
         else if endsWith (toLowerCase key) ''configinclude''
           then invoke rs ConfigInclude includeData mountPointPath key p
         else if endsWith (toLowerCase key) ''entityinclude''
           then invoke rs EntityInclude includeData mountPointPath key p
         else if endsWith (toLowerCase key) ''custominclude''
           then invoke rs CustomInclude includeData mountPointPath key p
         else if endsWith (toLowerCase key) ''localeinclude''
           then invoke rs LocaleInclude includeData mountPointPath key p
         else Inr p)"
proof -
  obtain key revMount where r: "rev (split_on CHR ''.'' includePath) = key # revMount"
    using split_on_nonempty[of "CHR ''.''" includePath]
    by (cases "rev (split_on CHR ''.'' includePath)") auto
  then have sp: "split_on CHR ''.'' includePath = rev revMount @ [key]"
    by (metis rev.simps(2) rev_rev_ident)
  have b: "bindE m (\<lambda>x. Inr x) = m" for m :: "error + pass"
    using bindE_Inr[of m] by simp
  have l: "bindE (Inr x) f = f x" for x :: pass and f :: "pass \<Rightarrow> error + pass"
    by (simp add: bindE_def)
  have k: "last (rev revMount @ [key]) = key" "butlast (rev revMount @ [key]) = rev revMount"
    by simp_all
  show ?thesis
    unfolding staticInclude_def Let_def r sp k list.case whenSuffix_def
    using static_suffixes_exclusive[of "toLowerCase key"]
    by (cases "endsWith (toLowerCase key) ''configinclude''";
        cases "endsWith (toLowerCase key) ''entityinclude''";
        cases "endsWith (toLowerCase key) ''custominclude''";
        cases "endsWith (toLowerCase key) ''localeinclude''")
       (simp_all add: b l)
qed

text \<open>
  Claim C10. The four suffix tests of the static pass are mutually exclusive: a key ends,
  case-insensitively, in at most one of the four suffixes. So for every include path the
  pass invokes the strategy of the one suffix its trailing segment ends in and no other,
  and it invokes none, returning the document as it was, when the segment ends in none
  of them.
\<close>

theorem static_at_most_one_strategy:
  "(\<forall>a \<in> set staticSuffixes. \<forall>b \<in> set staticSuffixes.
       endsWith (toLowerCase k) a \<and> endsWith (toLowerCase k) b \<longrightarrow> a = b)
   \<and> staticInclude rs includePath p =
       (let key = last (split_on CHR ''.'' includePath);
            mountPointPath = butlast (split_on CHR ''.'' includePath);
            includeData = storeLookup rs (getObjectValue rs (document p) includePath)
        in if key = [] then Inr p
           else if endsWith (toLowerCase key) ''configinclude''
             then invoke rs ConfigInclude includeData mountPointPath key p
           else if endsWith (toLowerCase key) ''entityinclude''
             then invoke rs EntityInclude includeData mountPointPath key p
           else if endsWith (toLowerCase key) ''custominclude''
             then invoke rs CustomInclude includeData mountPointPath key p
           else if endsWith (toLowerCase key) ''localeinclude''
             then invoke rs LocaleInclude includeData mountPointPath key p
           else Inr p)
   \<and> (\<forall>p'. staticInclude rs includePath p = Inr p' \<longrightarrow>
         (\<exists>calls. invoked p' = invoked p @ calls \<and> length calls \<le> 1))
   \<and> ((\<forall>a \<in> set staticSuffixes.
          \<not> endsWith (toLowerCase (last (split_on CHR ''.'' includePath))) a)
        \<longrightarrow> staticInclude rs includePath p = Inr p)"
proof (intro conjI allI impI)
  show "\<forall>a \<in> set staticSuffixes. \<forall>b \<in> set staticSuffixes.
       endsWith (toLowerCase k) a \<and> endsWith (toLowerCase k) b \<longrightarrow> a = b"
    using static_suffixes_exclusive[of "toLowerCase k"] by (auto simp: staticSuffixes_def)
next
  show "staticInclude rs includePath p =
       (let key = last (split_on CHR ''.'' includePath);
            mountPointPath = butlast (split_on CHR ''.'' includePath);
            includeData = storeLookup rs (getObjectValue rs (document p) includePath)
        in if key = [] then Inr p
           else if endsWith (toLowerCase key) ''configinclude''
             then invoke rs ConfigInclude includeData mountPointPath key p
           else if endsWith (toLowerCase key) ''entityinclude''
             then invoke rs EntityInclude includeData mountPointPath key p
           else if endsWith (toLowerCase key) ''custominclude''
             then invoke rs CustomInclude includeData mountPointPath key p
           else if endsWith (toLowerCase key) ''localeinclude''
             then invoke rs LocaleInclude includeData mountPointPath key p
           else Inr p)"
    by (rule staticInclude_cases)
next
  fix p' assume a: "staticInclude rs includePath p = Inr p'"
  then show "\<exists>calls. invoked p' = invoked p @ calls \<and> length calls \<le> 1"
    unfolding staticInclude_cases Let_def
    by (auto split: if_splits dest!: invoke_calls)
next
  assume n: "\<forall>a \<in> set staticSuffixes.
          \<not> endsWith (toLowerCase (last (split_on CHR ''.'' includePath))) a"
  then show "staticInclude rs includePath p = Inr p"
    unfolding staticInclude_cases Let_def by (simp add: staticSuffixes_def)
qed

theorem static_at_most_one_strategy_witness:
  "filter (endsWith (toLowerCase (last (split_on CHR ''.'' ''title'')))) staticSuffixes = []
   \<and> staticInclude exampleResolver ''title'' \<lparr> document = exampleDocument, invoked = [] \<rparr>
       = Inr \<lparr> document = exampleDocument, invoked = [] \<rparr>
   \<and> (\<exists>p'. staticInclude exampleResolver ''data.content.entityInclude''
               \<lparr> document = exampleDocument, invoked = [] \<rparr> = Inr p'
            \<and> invoked p' = [(EntityInclude, ''entityInclude'')])"
proof -
  have n: "\<forall>a \<in> set staticSuffixes. \<not> endsWith (toLowerCase (last (split_on CHR ''.'' ''title''))) a"
    by code_simp
  have e: "staticInclude exampleResolver ''data.content.entityInclude''
               \<lparr> document = exampleDocument, invoked = [] \<rparr>
           = Inr \<lparr> document = Obj [(''queryInclude'', Str ''relatedArticles?tag=foo&tag=bar''),
                                    (''title'', Str ''t''),
                                    (''metadata'', Obj [(''includes'', Arr [Str ''queryInclude'', Str ''title''] [])]),
                                    (''mounted'', Null)],
                   invoked = [(EntityInclude, ''entityInclude'')] \<rparr>"
    by code_simp
  from static_at_most_one_strategy[of "''title''" exampleResolver "''title''"
      "\<lparr> document = exampleDocument, invoked = [] \<rparr>"]
  have "(\<forall>a \<in> set staticSuffixes. \<not> endsWith (toLowerCase (last (split_on CHR ''.'' ''title''))) a)
        \<longrightarrow> staticInclude exampleResolver ''title'' \<lparr> document = exampleDocument, invoked = [] \<rparr>
              = Inr \<lparr> document = exampleDocument, invoked = [] \<rparr>"
    by blast
  with n have "staticInclude exampleResolver ''title'' \<lparr> document = exampleDocument, invoked = [] \<rparr>
              = Inr \<lparr> document = exampleDocument, invoked = [] \<rparr>" by blast
  moreover have "filter (endsWith (toLowerCase (last (split_on CHR ''.'' ''title'')))) staticSuffixes = []"
    by code_simp
  ultimately show ?thesis using e by simp
qed

subsection \<open>Dynamic pass\<close>





















end
